theory Spec2Isabelle
  imports Main
begin

section \<open>Memory model\<close>

text \<open>
  The C code of \<^verbatim>\<open>kmp.h\<close> works on raw arrays reached through pointers. A pointer is
  modelled as the block it points to, or \<open>None\<close> for the null pointer; the length of
  the list is the number of elements of the block. A read or write through the null
  pointer or outside the block is undefined behaviour in C: the model stops there with a
  \<open>fault\<close>. The C type \<^verbatim>\<open>int\<close> is modelled as \<open>int\<close>: every value the code computes
  is an index, a length or a count between \<open>-1\<close> and the larger of the two lengths, so no
  arithmetic wraps around when the lengths themselves are C ints.

  An outcome is \<open>Some (Inr v)\<close> when the code returns \<open>v\<close>, \<open>Some (Inl e)\<close> when it
  runs into the fault \<open>e\<close>, and \<open>None\<close> when it does not return.
\<close>

datatype fault = NullPointer | OutOfBounds

type_synonym 'a ptr = "'a list option"

type_synonym 'a outcome = "(fault + 'a) option"

definition rd :: "'a ptr \<Rightarrow> int \<Rightarrow> fault + 'a" where
  "rd p k =
     (case p of
        None \<Rightarrow> Inl NullPointer
      | Some xs \<Rightarrow> if 0 \<le> k \<and> k < int (length xs) then Inr (xs ! nat k) else Inl OutOfBounds)"

definition wr :: "'a ptr \<Rightarrow> int \<Rightarrow> 'a \<Rightarrow> fault + 'a ptr" where
  "wr p k v =
     (case p of
        None \<Rightarrow> Inl NullPointer
      | Some xs \<Rightarrow>
          if 0 \<le> k \<and> k < int (length xs) then Inr (Some (xs[nat k := v])) else Inl OutOfBounds)"

section \<open>The fallback loop and the advance step\<close>

text \<open>
  The three scanning functions share one loop,
  \<^verbatim>\<open>while (i > -1 && P[i + 1] != c) i = failure[i];\<close>
  where \<open>c\<close> is \<^verbatim>\<open>P[j]\<close> in \<^verbatim>\<open>kmp_failure\<close>, \<^verbatim>\<open>T[j]\<close> in \<^verbatim>\<open>kmp_match\<close> and the
  argument \<^verbatim>\<open>T_j\<close> in \<^verbatim>\<open>kmp_stream\<close>. The parameter \<open>c\<close> is the outcome of evaluating
  that right operand; it is looked at only after \<^verbatim>\<open>i > -1\<close> held and \<^verbatim>\<open>P[i + 1]\<close> was
  read. Nothing in the C code bounds the number of iterations, so the loop is a partial
  function.
\<close>

partial_function (option) fallback ::
  "char ptr \<Rightarrow> int ptr \<Rightarrow> fault + char \<Rightarrow> int \<Rightarrow> (fault + int) option" where
  "fallback P failure c i =
     (if i > -1 then
        (case rd P (i + 1) of
           Inl e \<Rightarrow> Some (Inl e)
         | Inr a \<Rightarrow>
             (case c of
                Inl e \<Rightarrow> Some (Inl e)
              | Inr b \<Rightarrow>
                  if a \<noteq> b then
                    (case rd failure i of
                       Inl e \<Rightarrow> Some (Inl e)
                     | Inr i' \<Rightarrow> fallback P failure c i')
                  else Some (Inr i)))
      else Some (Inr i))"

declare fallback.simps [code]

text \<open>The statement \<^verbatim>\<open>if (P[i + 1] == c) i++;\<close> that follows the loop.\<close>

definition advance :: "char ptr \<Rightarrow> fault + char \<Rightarrow> int \<Rightarrow> fault + int" where
  "advance P c i =
     (case rd P (i + 1) of
        Inl e \<Rightarrow> Inl e
      | Inr a \<Rightarrow> (case c of Inl e \<Rightarrow> Inl e | Inr b \<Rightarrow> Inr (if a = b then i + 1 else i)))"

section \<open>kmp_failure\<close>

text \<open>The \<^verbatim>\<open>for (j = 1; j < m; j++)\<close> loop of \<^verbatim>\<open>kmp_failure\<close>, from its state \<open>(failure, i, j)\<close>.\<close>

function kmp_failure_loop ::
  "char ptr \<Rightarrow> int \<Rightarrow> int ptr \<Rightarrow> int \<Rightarrow> int \<Rightarrow> (int ptr) outcome" where
  "kmp_failure_loop P m failure i j =
     (if j < m then
        (case fallback P failure (rd P j) i of
           None \<Rightarrow> None
         | Some (Inl e) \<Rightarrow> Some (Inl e)
         | Some (Inr i1) \<Rightarrow>
             (case advance P (rd P j) i1 of
                Inl e \<Rightarrow> Some (Inl e)
              | Inr i2 \<Rightarrow>
                  (case wr failure j i2 of
                     Inl e \<Rightarrow> Some (Inl e)
                   | Inr failure' \<Rightarrow> kmp_failure_loop P m failure' i2 (j + 1))))
      else Some (Inr failure))"
  by pat_completeness auto
termination
  by (relation "measure (\<lambda>(P, m, failure, i, j). nat (m - j))") auto

definition kmp_failure :: "char ptr \<Rightarrow> int \<Rightarrow> int ptr \<Rightarrow> (int ptr) outcome" where
  "kmp_failure P m failure =
     (case wr failure 0 (- 1) of
        Inl e \<Rightarrow> Some (Inl e)
      | Inr failure' \<Rightarrow> kmp_failure_loop P m failure' (- 1) 1)"

section \<open>kmp_match\<close>

text \<open>
  The \<^verbatim>\<open>for (j = 0; j < n; j++)\<close> loop of \<^verbatim>\<open>kmp_match\<close>, from its state
  \<open>(output, i, j, matches)\<close>.
\<close>

function kmp_match_loop ::
  "char ptr \<Rightarrow> int \<Rightarrow> char ptr \<Rightarrow> int \<Rightarrow> int ptr \<Rightarrow> int ptr \<Rightarrow> int \<Rightarrow> int \<Rightarrow> int \<Rightarrow>
   (int \<times> int ptr) outcome" where
  "kmp_match_loop T n P m failure output i j matches =
     (if j < n then
        (case fallback P failure (rd T j) i of
           None \<Rightarrow> None
         | Some (Inl e) \<Rightarrow> Some (Inl e)
         | Some (Inr i1) \<Rightarrow>
             (case advance P (rd T j) i1 of
                Inl e \<Rightarrow> Some (Inl e)
              | Inr i2 \<Rightarrow>
                  if i2 = m - 1 then
                    (case wr output matches (j - m + 1) of
                       Inl e \<Rightarrow> Some (Inl e)
                     | Inr output' \<Rightarrow>
                         (case rd failure i2 of
                            Inl e \<Rightarrow> Some (Inl e)
                          | Inr i3 \<Rightarrow>
                              kmp_match_loop T n P m failure output' i3 (j + 1) (matches + 1)))
                  else kmp_match_loop T n P m failure output i2 (j + 1) matches))
      else Some (Inr (matches, output)))"
  by pat_completeness auto
termination
  by (relation "measure (\<lambda>(T, n, P, m, failure, output, i, j, matches). nat (n - j))") auto

text \<open>
  \<^verbatim>\<open>kmp_match\<close> obtains its failure table from \<^verbatim>\<open>malloc(m * sizeof(int))\<close> and does not
  test the pointer it gets. The last argument \<open>block\<close> is what that call returned: \<open>None\<close>
  when the allocation failed, the fresh block otherwise. The result is the returned count
  together with the output array; \<^verbatim>\<open>free(failure)\<close> changes neither.
\<close>

definition kmp_match ::
  "char ptr \<Rightarrow> int \<Rightarrow> char ptr \<Rightarrow> int \<Rightarrow> int ptr \<Rightarrow> int ptr \<Rightarrow> (int \<times> int ptr) outcome" where
  "kmp_match T n P m output block =
     (case kmp_failure P m block of
        None \<Rightarrow> None
      | Some (Inl e) \<Rightarrow> Some (Inl e)
      | Some (Inr failure) \<Rightarrow> kmp_match_loop T n P m failure output (- 1) 0 0)"

section \<open>The streaming matcher\<close>

text \<open>
  The structure \<^verbatim>\<open>kmp_state_t\<close>. Its fields \<^verbatim>\<open>P\<close>, \<^verbatim>\<open>m\<close>, \<^verbatim>\<open>i\<close> and \<^verbatim>\<open>failure\<close> carry
  the prefix \<open>state_\<close> here, since a field of a record is a constant of the theory and
  would capture these letters everywhere. A \<^verbatim>\<open>kmp_state\<close> is a pointer to the structure.
  \<^verbatim>\<open>kmp_size\<close> and \<^verbatim>\<open>kmp_free\<close> are left out: no property below depends on them.
\<close>

record kmp_state_t =
  state_P :: "char ptr"
  state_m :: int
  state_i :: int
  state_failure :: "int ptr"

type_synonym kmp_state = "kmp_state_t option"

text \<open>The copy loop \<^verbatim>\<open>for (i = 0; i < m; i++) state->P[i] = P[i];\<close> of \<^verbatim>\<open>kmp_build\<close>.\<close>

function kmp_build_copy :: "char ptr \<Rightarrow> int \<Rightarrow> char ptr \<Rightarrow> int \<Rightarrow> fault + char ptr" where
  "kmp_build_copy P m dst i =
     (if i < m then
        (case rd P i of
           Inl e \<Rightarrow> Inl e
         | Inr c \<Rightarrow>
             (case wr dst i c of
                Inl e \<Rightarrow> Inl e
              | Inr dst' \<Rightarrow> kmp_build_copy P m dst' (i + 1)))
      else Inr dst)"
  by pat_completeness auto
termination
  by (relation "measure (\<lambda>(P, m, dst, i). nat (m - i))") auto

text \<open>
  \<^verbatim>\<open>kmp_build\<close> calls \<^verbatim>\<open>malloc\<close> three times and tests none of the results. The
  arguments \<open>sblock\<close>, \<open>pblock\<close> and \<open>fblock\<close> are what the three calls returned: the
  state record, the pattern copy and the failure table, each \<open>None\<close> when the allocation
  failed.
\<close>

definition kmp_build ::
  "char ptr \<Rightarrow> int \<Rightarrow> kmp_state \<Rightarrow> char ptr \<Rightarrow> int ptr \<Rightarrow> kmp_state outcome" where
  "kmp_build P m sblock pblock fblock =
     (case sblock of
        None \<Rightarrow> Some (Inl NullPointer)
      | Some s0 \<Rightarrow>
          (case kmp_build_copy P m pblock 0 of
             Inl e \<Rightarrow> Some (Inl e)
           | Inr p' \<Rightarrow>
               (case kmp_failure P m fblock of
                  None \<Rightarrow> None
                | Some (Inl e) \<Rightarrow> Some (Inl e)
                | Some (Inr f') \<Rightarrow>
                    Some (Inr (Some (s0\<lparr>state_P := p', state_m := m, state_i := - 1,
                                        state_failure := f'\<rparr>))))))"

definition kmp_stream :: "kmp_state \<Rightarrow> char \<Rightarrow> int \<Rightarrow> (int \<times> kmp_state) outcome" where
  "kmp_stream state T_j j =
     (case state of
        None \<Rightarrow> Some (Inl NullPointer)
      | Some s \<Rightarrow>
          (case fallback (state_P s) (state_failure s) (Inr T_j) (state_i s) of
             None \<Rightarrow> None
           | Some (Inl e) \<Rightarrow> Some (Inl e)
           | Some (Inr i1) \<Rightarrow>
               (case advance (state_P s) (Inr T_j) i1 of
                  Inl e \<Rightarrow> Some (Inl e)
                | Inr i2 \<Rightarrow>
                    if i2 = state_m s - 1 then
                      (case rd (state_failure s) i2 of
                         Inl e \<Rightarrow> Some (Inl e)
                       | Inr i3 \<Rightarrow> Some (Inr (j, Some (s\<lparr>state_i := i3\<rparr>))))
                    else Some (Inr (- 1, Some (s\<lparr>state_i := i2\<rparr>))))))"

text \<open>
  The caller's loop of the specification: the text is fed one symbol at a time, the
  position counter starting at \<open>j\<close> and growing by one with each symbol. The result is
  the list of the values \<^verbatim>\<open>kmp_stream\<close> returned, with the final state.
\<close>

fun feed :: "kmp_state \<Rightarrow> char list \<Rightarrow> int \<Rightarrow> (int list \<times> kmp_state) outcome" where
  "feed state [] j = Some (Inr ([], state))"
| "feed state (c # cs) j =
     (case kmp_stream state c j of
        None \<Rightarrow> None
      | Some (Inl e) \<Rightarrow> Some (Inl e)
      | Some (Inr (r, state')) \<Rightarrow>
          (case feed state' cs (j + 1) of
             None \<Rightarrow> None
           | Some (Inl e) \<Rightarrow> Some (Inl e)
           | Some (Inr (rs, state'')) \<Rightarrow> Some (Inr (r # rs, state''))))"

section \<open>Notions of the specification\<close>

text \<open>
  \<open>is_sp p t r\<close>: the prefix of length \<open>r\<close> of the pattern \<open>p\<close> is a suffix of the text
  \<open>t\<close>. With \<open>r = length p\<close> it says that an occurrence of the pattern ends where
  \<open>t\<close> ends.
\<close>

definition is_sp :: "'a list \<Rightarrow> 'a list \<Rightarrow> nat \<Rightarrow> bool" where
  "is_sp p t r \<longleftrightarrow> r \<le> length p \<and> r \<le> length t \<and> take r p = drop (length t - r) t"

text \<open>
  \<open>pborder w r\<close>: the prefix of length \<open>r\<close> of \<open>w\<close> is a proper prefix of \<open>w\<close> that is
  also a suffix of \<open>w\<close>.
\<close>

definition pborder :: "'a list \<Rightarrow> nat \<Rightarrow> bool" where
  "pborder w r \<longleftrightarrow> r < length w \<and> take r w = drop (length w - r) w"

text \<open>
  \<open>tbl_ok p f x\<close>: entry \<open>x\<close> of the table \<open>f\<close> is at least \<open>-1\<close>, and \<open>f[x] + 1\<close> is
  the length of the longest proper prefix of \<open>p[0..x]\<close> that is also its suffix.
\<close>

definition tbl_ok :: "char list \<Rightarrow> int list \<Rightarrow> nat \<Rightarrow> bool" where
  "tbl_ok p f x \<longleftrightarrow>
     x < length f \<and> - 1 \<le> f ! x \<and> pborder (take (Suc x) p) (nat (f ! x + 1)) \<and>
     (\<forall>r. pborder (take (Suc x) p) r \<longrightarrow> r \<le> nat (f ! x + 1))"

text \<open>
  \<open>lsp p t k\<close>: \<open>k\<close> is the length of the longest proper prefix of the pattern \<open>p\<close> that
  is a suffix of the text \<open>t\<close>.
\<close>

definition lsp :: "char list \<Rightarrow> char list \<Rightarrow> nat \<Rightarrow> bool" where
  "lsp p t k \<longleftrightarrow> k < length p \<and> is_sp p t k \<and> (\<forall>r<length p. is_sp p t r \<longrightarrow> r \<le> k)"

text \<open>The positions of \<open>t\<close>, from \<open>j\<close> on, at which an occurrence of \<open>p\<close> ends.\<close>

definition ends :: "char list \<Rightarrow> char list \<Rightarrow> nat \<Rightarrow> nat list" where
  "ends t p j = filter (\<lambda>e. is_sp p (take (Suc e) t) (length p)) [j..<length t]"

text \<open>
  \<open>occurs_at t p s\<close>: the pattern \<open>p\<close> occurs in the text \<open>t\<close> at offset \<open>s\<close>, that is
  \<open>t[s .. s + m - 1] = p\<close>. \<open>occurrences t p\<close> lists these offsets in increasing order.
\<close>

definition occurs_at :: "char list \<Rightarrow> char list \<Rightarrow> nat \<Rightarrow> bool" where
  "occurs_at t p s \<longleftrightarrow> s + length p \<le> length t \<and> take (length p) (drop s t) = p"

definition occurrences :: "char list \<Rightarrow> char list \<Rightarrow> nat list" where
  "occurrences t p = filter (occurs_at t p) [0..<Suc (length t) - length p]"

declare kmp_failure_loop.simps [simp del] kmp_match_loop.simps [simp del]
  kmp_build_copy.simps [simp del]

section \<open>Prefixes of the pattern that are suffixes of the text\<close>

lemma is_sp_0: "is_sp p t 0"
  by (simp add: is_sp_def)

lemma is_sp_snoc_Suc:
  "is_sp p (t @ [c]) (Suc r) \<longleftrightarrow> is_sp p t r \<and> r < length p \<and> p ! r = c"
proof (cases "r < length p \<and> r \<le> length t")
  case True
  then have "take (Suc r) p = take r p @ [p ! r]"
    by (simp add: take_Suc_conv_app_nth)
  moreover from True have "drop (length (t @ [c]) - Suc r) (t @ [c]) = drop (length t - r) t @ [c]"
    by simp
  ultimately show ?thesis using True by (auto simp: is_sp_def)
next
  case False
  then show ?thesis by (auto simp: is_sp_def)
qed

lemma is_sp_snoc_cases:
  "is_sp p (t @ [c]) r \<longleftrightarrow> r = 0 \<or> (\<exists>q. r = Suc q \<and> is_sp p t q \<and> q < length p \<and> p ! q = c)"
  by (cases r) (simp_all add: is_sp_0 is_sp_snoc_Suc)

lemma is_sp_shorter:
  assumes "is_sp p t k" and "r < k"
  shows "is_sp p t r \<longleftrightarrow> pborder (take k p) r"
proof -
  from assms have k: "k \<le> length p" "k \<le> length t" and eq: "take k p = drop (length t - k) t"
    by (simp_all add: is_sp_def)
  have "drop (length t - r) t = drop (k - r) (drop (length t - k) t)"
    using k assms(2) by simp
  then have "drop (length t - r) t = drop (k - r) (take k p)"
    using eq by simp
  moreover have "take r (take k p) = take r p"
    using assms(2) by (simp add: min_def)
  ultimately show ?thesis
    using k assms(2) by (simp add: is_sp_def pborder_def min_def)
qed

lemma pborder_tl:
  assumes "Suc j \<le> length p"
  shows "pborder (take (Suc j) p) r \<longleftrightarrow> is_sp p (drop 1 (take (Suc j) p)) r"
proof -
  define w where "w = take (Suc j) p"
  have len: "length w = Suc j"
    using assms by (simp add: w_def)
  show ?thesis
  proof (cases "r \<le> j")
    case True
    have "j - r + 1 = Suc j - r"
      using True by simp
    then have a: "drop (length (drop 1 w) - r) (drop 1 w) = drop (length w - r) w"
      using len by simp
    have b: "take r w = take r p"
      using True by (simp add: w_def min_def)
    have "pborder w r \<longleftrightarrow> take r p = drop (length w - r) w"
      using True len b by (simp add: pborder_def)
    moreover have "is_sp p (drop 1 w) r \<longleftrightarrow> take r p = drop (length w - r) w"
      using True len assms a by (simp add: is_sp_def)
    ultimately show ?thesis by (simp add: w_def)
  next
    case False
    then have "\<not> pborder w r" "\<not> is_sp p (drop 1 w) r"
      using len by (simp_all add: is_sp_def pborder_def)
    then show ?thesis by (simp add: w_def)
  qed
qed

lemma fallback_stop: "fallback P failure c (- 1) = Some (Inr (- 1))"
  by (subst fallback.simps) simp

lemma fallback_hit:
  assumes "k < length p" and "p ! k = c"
  shows "fallback (Some p) failure (Inr c) (int k - 1) = Some (Inr (int k - 1))"
  using assms by (subst fallback.simps) (simp add: rd_def)

lemma fallback_miss:
  assumes "0 < k" and "k < length p" and "p ! k \<noteq> c" and "k - 1 < length f"
  shows "fallback (Some p) (Some f) (Inr c) (int k - 1) =
         fallback (Some p) (Some f) (Inr c) (f ! (k - 1))"
proof -
  have a: "rd (Some p) (int k - 1 + 1) = Inr (p ! k)"
    using assms(2) by (simp add: rd_def)
  have "nat (int k - 1) = k - 1" and "0 \<le> int k - 1" and "int k - 1 < int (length f)"
    using assms(1,4) by auto
  then have b: "rd (Some f) (int k - 1) = Inr (f ! (k - 1))"
    by (simp add: rd_def)
  have c: "int k - 1 > - 1"
    using assms(1) by simp
  show ?thesis
    by (subst fallback.simps) (simp only: a b c assms(3) if_True sum.case not_False_eq_True)
qed

lemma tbl_ok_link:
  assumes "tbl_ok p f x" and "x < length p"
  shows "int (nat (f ! x + 1)) - 1 = f ! x" and "nat (f ! x + 1) \<le> x"
  using assms by (simp_all add: tbl_ok_def pborder_def)

lemma fallback_correct:
  assumes tbl: "\<forall>x<k. tbl_ok p f x"
    and k: "k < length p"
    and sp: "is_sp p t k"
    and mx: "\<forall>r<length p. is_sp p t r \<and> p ! r = c \<longrightarrow> r \<le> k"
  shows "\<exists>k'. fallback (Some p) (Some f) (Inr c) (int k - 1) = Some (Inr (int k' - 1)) \<and>
           k' \<le> k \<and> is_sp p t k' \<and>
           (\<forall>r<length p. is_sp p t r \<and> p ! r = c \<longrightarrow> r \<le> k') \<and>
           (0 < k' \<longrightarrow> p ! k' = c)"
  using assms
proof (induction k rule: less_induct)
  case (less k)
  show ?case
  proof (cases "k = 0 \<or> p ! k = c")
    case True
    then have "fallback (Some p) (Some f) (Inr c) (int k - 1) = Some (Inr (int k - 1))"
      using less.prems(2) by (auto simp: fallback_stop fallback_hit)
    with True less.prems show ?thesis by auto
  next
    case False
    then have pos: "0 < k" and ne: "p ! k \<noteq> c" by simp_all
    define k2 where "k2 = nat (f ! (k - 1) + 1)"
    have ok: "tbl_ok p f (k - 1)"
      using less.prems(1) pos by simp
    have "k - 1 < length p"
      using less.prems(2) by simp
    from tbl_ok_link [OF ok this] have lnk: "int k2 - 1 = f ! (k - 1)" and k2: "k2 < k"
      using pos by (simp_all add: k2_def)
    have bord: "pborder (take k p) k2" and bmax: "\<forall>r. pborder (take k p) r \<longrightarrow> r \<le> k2"
      using ok pos by (simp_all add: tbl_ok_def k2_def)
    have step: "fallback (Some p) (Some f) (Inr c) (int k - 1) =
                fallback (Some p) (Some f) (Inr c) (int k2 - 1)"
      using fallback_miss [OF pos less.prems(2) ne] ok lnk by (simp add: tbl_ok_def)
    have sp2: "is_sp p t k2"
      using is_sp_shorter [OF less.prems(3) k2] bord by simp
    have mx2: "\<forall>r<length p. is_sp p t r \<and> p ! r = c \<longrightarrow> r \<le> k2"
    proof (intro allI impI)
      fix r assume r: "r < length p" and h: "is_sp p t r \<and> p ! r = c"
      then have "r \<le> k" using less.prems(4) by simp
      moreover have "r \<noteq> k" using h ne by auto
      ultimately have "r < k" by simp
      then have "pborder (take k p) r"
        using is_sp_shorter [OF less.prems(3)] h by simp
      then show "r \<le> k2" using bmax by simp
    qed
    have "\<exists>k'. fallback (Some p) (Some f) (Inr c) (int k2 - 1) = Some (Inr (int k' - 1)) \<and>
           k' \<le> k2 \<and> is_sp p t k' \<and>
           (\<forall>r<length p. is_sp p t r \<and> p ! r = c \<longrightarrow> r \<le> k') \<and>
           (0 < k' \<longrightarrow> p ! k' = c)"
      using less.IH [OF k2] less.prems(1,2) k2 sp2 mx2 by simp
    then show ?thesis using step k2 by (metis le_trans less_imp_le_nat)
  qed
qed

lemma scan_correct:
  assumes tbl: "\<forall>x<k. tbl_ok p f x" and inv: "lsp p t k"
  shows "\<exists>k1 k2. fallback (Some p) (Some f) (Inr c) (int k - 1) = Some (Inr (int k1 - 1)) \<and>
           advance (Some p) (Inr c) (int k1 - 1) = Inr (int k2 - 1) \<and> k2 \<le> Suc k \<and>
           is_sp p (t @ [c]) k2 \<and> (\<forall>r. is_sp p (t @ [c]) r \<longrightarrow> r \<le> k2)"
proof -
  from inv have k: "k < length p" and sp: "is_sp p t k"
    and mx: "\<forall>r<length p. is_sp p t r \<and> p ! r = c \<longrightarrow> r \<le> k"
    by (simp_all add: lsp_def)
  from fallback_correct [OF tbl k sp mx] obtain k1 where
    fb: "fallback (Some p) (Some f) (Inr c) (int k - 1) = Some (Inr (int k1 - 1))"
    and k1: "k1 \<le> k" and sp1: "is_sp p t k1"
    and mx1: "\<forall>r<length p. is_sp p t r \<and> p ! r = c \<longrightarrow> r \<le> k1"
    and hit: "0 < k1 \<longrightarrow> p ! k1 = c"
    by blast
  have k1p: "k1 < length p" using k1 k by simp
  define k2 where "k2 = (if p ! k1 = c then Suc k1 else k1)"
  have adv: "advance (Some p) (Inr c) (int k1 - 1) = Inr (int k2 - 1)"
    using k1p by (simp add: advance_def rd_def k2_def)
  have sp2: "is_sp p (t @ [c]) k2"
  proof (cases "p ! k1 = c")
    case True
    then show ?thesis using sp1 k1p by (simp add: k2_def is_sp_snoc_Suc)
  next
    case False
    then have "k1 = 0" using hit by auto
    then show ?thesis using False by (simp add: k2_def is_sp_0)
  qed
  have mx2: "\<forall>r. is_sp p (t @ [c]) r \<longrightarrow> r \<le> k2"
  proof (intro allI impI)
    fix r assume "is_sp p (t @ [c]) r"
    then consider "r = 0" | q where "r = Suc q" "is_sp p t q" "q < length p" "p ! q = c"
      by (auto simp: is_sp_snoc_cases)
    then show "r \<le> k2"
    proof cases
      case 1
      then show ?thesis by simp
    next
      case 2
      then have qk: "q \<le> k1" using mx1 by simp
      show ?thesis
      proof (cases "p ! k1 = c")
        case True
        then show ?thesis using qk 2(1) by (simp add: k2_def)
      next
        case False
        then have "k1 = 0" using hit by auto
        then have "q = 0" using qk by simp
        then show ?thesis using 2(4) False \<open>k1 = 0\<close> by simp
      qed
    qed
  qed
  have "k2 \<le> Suc k" using k1 by (simp add: k2_def)
  with fb adv sp2 mx2 show ?thesis by blast
qed

lemma is_sp_le: "is_sp p t r \<Longrightarrow> r \<le> length t"
  by (simp add: is_sp_def)

lemma lsp_Nil: "0 < length p \<Longrightarrow> lsp p [] 0"
  by (simp add: lsp_def is_sp_def)

lemma tbl_ok_update:
  "x \<noteq> j \<Longrightarrow> tbl_ok p (f[j := v]) x = tbl_ok p f x"
  by (simp add: tbl_ok_def)

lemma drop1_take_Suc:
  assumes "1 \<le> j" and "j < length p"
  shows "drop 1 (take (Suc j) p) = drop 1 (take j p) @ [p ! j]"
proof -
  have "take (Suc j) p = take j p @ [p ! j]"
    using assms(2) by (simp add: take_Suc_conv_app_nth)
  moreover have "length (take j p) = j"
    using assms(2) by simp
  ultimately show ?thesis using assms(1) by simp
qed

lemma kmp_failure_loop_correct:
  assumes "length f = length p" and "1 \<le> j" and "j \<le> length p"
    and "\<forall>x<j. tbl_ok p f x" and "lsp p (drop 1 (take j p)) k"
  shows "\<exists>f'. kmp_failure_loop (Some p) (int (length p)) (Some f) (int k - 1) (int j) =
               Some (Inr (Some f')) \<and>
             length f' = length p \<and> (\<forall>x<length p. tbl_ok p f' x)"
  using assms
proof (induction "length p - j" arbitrary: f k j)
  case 0
  then have "j = length p" by simp
  then have "kmp_failure_loop (Some p) (int (length p)) (Some f) (int k - 1) (int j) =
             Some (Inr (Some f))"
    by (subst kmp_failure_loop.simps) simp
  with 0 \<open>j = length p\<close> show ?case by simp
next
  case (Suc d)
  then have j: "j < length p" by simp
  let ?t = "drop 1 (take j p)"
  have lt: "length ?t = j - 1" using j by simp
  have "is_sp p ?t k"
    using Suc.prems(5) by (simp add: lsp_def)
  from is_sp_le [OF this] have kj: "k < j"
    using Suc.prems(2) lt by linarith
  have tblk: "\<forall>x<k. tbl_ok p f x"
    using Suc.prems(4) kj by simp
  from scan_correct [OF tblk Suc.prems(5), of "p ! j"] obtain k1 k2 where
    fb: "fallback (Some p) (Some f) (Inr (p ! j)) (int k - 1) = Some (Inr (int k1 - 1))"
    and adv: "advance (Some p) (Inr (p ! j)) (int k1 - 1) = Inr (int k2 - 1)"
    and sp2: "is_sp p (?t @ [p ! j]) k2"
    and mx2: "\<forall>r. is_sp p (?t @ [p ! j]) r \<longrightarrow> r \<le> k2"
    by blast
  have t': "drop 1 (take (Suc j) p) = ?t @ [p ! j]"
    using drop1_take_Suc [OF Suc.prems(2) j] .
  have rdj: "rd (Some p) (int j) = Inr (p ! j)"
    using j by (simp add: rd_def)
  define f2 where "f2 = f[j := int k2 - 1]"
  have wrj: "wr (Some f) (int j) (int k2 - 1) = Inr (Some f2)"
    using j Suc.prems(1) by (simp add: wr_def f2_def)
  have unfold: "kmp_failure_loop (Some p) (int (length p)) (Some f) (int k - 1) (int j) =
                kmp_failure_loop (Some p) (int (length p)) (Some f2) (int k2 - 1) (int (Suc j))"
    using j by (subst kmp_failure_loop.simps) (simp add: rdj fb adv wrj add.commute)
  from is_sp_le [OF sp2] have k2j: "k2 \<le> j"
    using lt Suc.prems(2) by simp
  have okj: "tbl_ok p f2 j"
    using sp2 mx2 j Suc.prems(1) pborder_tl [of j p] t'
    by (simp add: tbl_ok_def f2_def Suc_leI)
  have tbl2: "\<forall>x<Suc j. tbl_ok p f2 x"
  proof (intro allI impI)
    fix x assume "x < Suc j"
    then show "tbl_ok p f2 x"
      using okj Suc.prems(4) by (cases "x = j") (simp_all add: f2_def tbl_ok_update)
  qed
  have inv2: "lsp p (drop 1 (take (Suc j) p)) k2"
    using sp2 mx2 k2j j t' by (simp add: lsp_def)
  have "\<exists>f'. kmp_failure_loop (Some p) (int (length p)) (Some f2) (int k2 - 1) (int (Suc j)) =
               Some (Inr (Some f')) \<and>
             length f' = length p \<and> (\<forall>x<length p. tbl_ok p f' x)"
  proof (rule Suc.hyps(1))
    show "d = length p - Suc j" using Suc.hyps(2) by simp
    show "length f2 = length p" using Suc.prems(1) by (simp add: f2_def)
    show "1 \<le> Suc j" by simp
    show "Suc j \<le> length p" using j by simp
    show "\<forall>x<Suc j. tbl_ok p f2 x" by (rule tbl2)
    show "lsp p (drop 1 (take (Suc j) p)) k2" by (rule inv2)
  qed
  then show ?case using unfold by simp
qed

lemma kmp_failure_correct:
  assumes "length f = length p" and "0 < length p"
  shows "\<exists>f'. kmp_failure (Some p) (int (length p)) (Some f) = Some (Inr (Some f')) \<and>
             length f' = length p \<and> (\<forall>x<length p. tbl_ok p f' x)"
proof -
  define f0 where "f0 = f[0 := - 1]"
  have wr0: "wr (Some f) 0 (- 1) = Inr (Some f0)"
    using assms by (simp add: wr_def f0_def)
  have ok0: "\<forall>x<1. tbl_ok p f0 x"
    using assms by (simp add: tbl_ok_def f0_def pborder_def)
  have inv0: "lsp p (drop 1 (take 1 p)) 0"
    using assms by (simp add: lsp_def is_sp_def)
  have "\<exists>f'. kmp_failure_loop (Some p) (int (length p)) (Some f0) (int 0 - 1) (int 1) =
               Some (Inr (Some f')) \<and>
             length f' = length p \<and> (\<forall>x<length p. tbl_ok p f' x)"
  proof (rule kmp_failure_loop_correct)
    show "length f0 = length p" using assms by (simp add: f0_def)
    show "1 \<le> (1::nat)" by simp
    show "1 \<le> length p" using assms(2) by linarith
    show "\<forall>x<1. tbl_ok p f0 x" by (rule ok0)
    show "lsp p (drop 1 (take 1 p)) 0" by (rule inv0)
  qed
  then show ?thesis by (simp add: kmp_failure_def wr0)
qed

lemma ends_stop: "length t \<le> j \<Longrightarrow> ends t p j = []"
  by (simp add: ends_def)

lemma ends_step:
  "j < length t \<Longrightarrow>
   ends t p j = (if is_sp p (take (Suc j) t) (length p) then j # ends t p (Suc j)
                 else ends t p (Suc j))"
  by (simp add: ends_def upt_conv_Cons)

lemma lsp_after_match:
  assumes ok: "tbl_ok p f (length p - 1)" and pos: "0 < length p"
    and sp: "is_sp p t (length p)"
  shows "lsp p t (nat (f ! (length p - 1) + 1))"
proof -
  let ?k = "nat (f ! (length p - 1) + 1)"
  have tk: "take (Suc (length p - 1)) p = take (length p) p"
    using pos by simp
  have bord: "pborder (take (length p) p) ?k"
    and bmax: "\<forall>r. pborder (take (length p) p) r \<longrightarrow> r \<le> ?k"
    using ok tk by (simp_all add: tbl_ok_def)
  have lt: "?k < length p"
    using bord by (simp add: pborder_def)
  have "is_sp p t ?k"
    using is_sp_shorter [OF sp lt] bord by simp
  moreover have "\<forall>r<length p. is_sp p t r \<longrightarrow> r \<le> ?k"
    using is_sp_shorter [OF sp] bmax by simp
  ultimately show ?thesis using lt by (simp add: lsp_def)
qed

lemma lsp_no_match:
  assumes "is_sp p t k" and "\<forall>r. is_sp p t r \<longrightarrow> r \<le> k" and "k \<noteq> length p"
  shows "lsp p t k" and "\<not> is_sp p t (length p)"
proof -
  have "k \<le> length p" using assms(1) by (simp add: is_sp_def)
  then have lt: "k < length p" using assms(3) by simp
  then show "lsp p t k" using assms(1,2) by (simp add: lsp_def)
  show "\<not> is_sp p t (length p)" using assms(2) lt by auto
qed

lemma kmp_match_loop_correct:
  assumes tbl: "\<forall>x<length p. tbl_ok p f x"
    and "j \<le> length t" and "lsp p (take j t) k"
    and "c + (length t - max j (length p - 1)) \<le> length out"
  shows "kmp_match_loop (Some t) (int (length t)) (Some p) (int (length p)) (Some f) (Some out)
           (int k - 1) (int j) (int c) =
         Some (Inr (int (c + length (ends t p j)),
           Some (take c out @ map (\<lambda>e. int e - int (length p) + 1) (ends t p j) @
                 drop (c + length (ends t p j)) out)))"
  using assms(2-)
proof (induction "length t - j" arbitrary: k j c out)
  case 0
  then have "j = length t" by simp
  then have "kmp_match_loop (Some t) (int (length t)) (Some p) (int (length p)) (Some f)
               (Some out) (int k - 1) (int j) (int c) = Some (Inr (int c, Some out))"
    by (subst kmp_match_loop.simps) simp
  with \<open>j = length t\<close> show ?case by (simp add: ends_stop)
next
  case (Suc d)
  then have j: "j < length t" by simp
  have kp: "k < length p" using Suc.prems(2) by (simp add: lsp_def)
  then have pos: "0 < length p" by linarith
  have tblk: "\<forall>x<k. tbl_ok p f x" using tbl kp by simp
  from scan_correct [OF tblk Suc.prems(2), of "t ! j"] obtain k1 k2 where
    fb: "fallback (Some p) (Some f) (Inr (t ! j)) (int k - 1) = Some (Inr (int k1 - 1))"
    and adv: "advance (Some p) (Inr (t ! j)) (int k1 - 1) = Inr (int k2 - 1)"
    and sp2: "is_sp p (take j t @ [t ! j]) k2"
    and mx2: "\<forall>r. is_sp p (take j t @ [t ! j]) r \<longrightarrow> r \<le> k2"
    by blast
  have t': "take (Suc j) t = take j t @ [t ! j]"
    using j by (simp add: take_Suc_conv_app_nth)
  have rdj: "rd (Some t) (int j) = Inr (t ! j)"
    using j by (simp add: rd_def)
  have dj: "d = length t - Suc j" using Suc.hyps(2) by simp
  have sucj: "int (Suc j) = int j + 1" and succ: "int (Suc c) = int c + 1" by simp_all
  show ?case
  proof (cases "k2 = length p")
    case True
    then have hit: "is_sp p (take (Suc j) t) (length p)" using sp2 t' by simp
    from is_sp_le [OF hit] have mj: "length p \<le> Suc j" using j by simp
    then have mxj: "max j (length p - 1) = j" by simp
    have cl: "c < length out" using Suc.prems(3) j mxj by simp
    define out2 where "out2 = out[c := int j - int (length p) + 1]"
    have wro: "wr (Some out) (int c) (int j - int (length p) + 1) = Inr (Some out2)"
      using cl by (simp add: wr_def out2_def)
    define k3 where "k3 = nat (f ! (length p - 1) + 1)"
    have okl: "tbl_ok p f (length p - 1)" using tbl pos by simp
    have "length p - 1 < length p" using pos by simp
    from tbl_ok_link(1) [OF okl this] have lnk: "int k3 - 1 = f ! (length p - 1)"
      by (simp add: k3_def)
    have rdf: "rd (Some f) (int (length p) - 1) = Inr (int k3 - 1)"
    proof -
      have "nat (int (length p) - 1) = length p - 1" by simp
      moreover have "0 \<le> int (length p) - 1" and "int (length p) - 1 < int (length f)"
        using pos okl by (auto simp: tbl_ok_def)
      ultimately show ?thesis using lnk by (simp add: rd_def)
    qed
    have inv3: "lsp p (take (Suc j) t) k3"
      using lsp_after_match [OF okl pos hit] by (simp add: k3_def)
    have unfold: "kmp_match_loop (Some t) (int (length t)) (Some p) (int (length p)) (Some f)
                    (Some out) (int k - 1) (int j) (int c) =
                  kmp_match_loop (Some t) (int (length t)) (Some p) (int (length p)) (Some f)
                    (Some out2) (int k3 - 1) (int (Suc j)) (int (Suc c))"
      unfolding sucj succ using j True
      by (subst kmp_match_loop.simps) (simp add: rdj fb adv wro rdf)
    have bnd: "Suc c + (length t - max (Suc j) (length p - 1)) \<le> length out2"
      using Suc.prems(3) j mxj mj by (simp add: out2_def)
    have sj: "Suc j \<le> length t" using j by simp
    note IH = Suc.hyps(1) [OF dj sj inv3 bnd]
    let ?es = "ends t p (Suc j)"
    have e: "ends t p j = j # ?es"
      using ends_step [OF j] hit by simp
    have tk: "take (Suc c) out2 = take c out @ [int j - int (length p) + 1]"
      using cl by (simp add: out2_def take_Suc_conv_app_nth)
    have dr: "drop (Suc c + length ?es) out2 = drop (c + length (ends t p j)) out"
      by (simp add: out2_def e)
    show ?thesis
      unfolding unfold IH tk dr by (simp add: e)
  next
    case False
    have inv2: "lsp p (take (Suc j) t) k2" and miss: "\<not> is_sp p (take (Suc j) t) (length p)"
      using lsp_no_match [OF _ _ False, of "take (Suc j) t"] sp2 mx2 t' by simp_all
    have ne: "int k2 - 1 \<noteq> int (length p) - 1" using False by simp
    have unfold: "kmp_match_loop (Some t) (int (length t)) (Some p) (int (length p)) (Some f)
                    (Some out) (int k - 1) (int j) (int c) =
                  kmp_match_loop (Some t) (int (length t)) (Some p) (int (length p)) (Some f)
                    (Some out) (int k2 - 1) (int (Suc j)) (int c)"
      unfolding sucj using j ne
      by (subst kmp_match_loop.simps) (simp add: rdj fb adv)
    have "max j (length p - 1) \<le> max (Suc j) (length p - 1)"
      by simp
    then have "length t - max (Suc j) (length p - 1) \<le> length t - max j (length p - 1)"
      by (rule diff_le_mono2)
    then have bnd: "c + (length t - max (Suc j) (length p - 1)) \<le> length out"
      using Suc.prems(3) by linarith
    have sj: "Suc j \<le> length t" using j by simp
    note IH = Suc.hyps(1) [OF dj sj inv2 bnd]
    have e: "ends t p j = ends t p (Suc j)"
      using ends_step [OF j] miss by simp
    show ?thesis
      unfolding unfold IH by (simp add: e)
  qed
qed

section \<open>The batch scan finds the occurrences\<close>

lemma is_sp_full:
  assumes "e < length t"
  shows "is_sp p (take (Suc e) t) (length p) \<longleftrightarrow>
         length p \<le> Suc e \<and> occurs_at t p (Suc e - length p)"
proof (cases "length p \<le> Suc e")
  case True
  have "drop (Suc e - length p) (take (Suc e) t) = take (length p) (drop (Suc e - length p) t)"
    using True by (simp add: drop_take)
  moreover have "length (take (Suc e) t) = Suc e"
    using assms by simp
  moreover have "Suc e - length p + length p \<le> length t"
    using True assms by simp
  ultimately show ?thesis
    using True by (auto simp: is_sp_def occurs_at_def)
next
  case False
  then show ?thesis using assms by (simp add: is_sp_def)
qed

lemma ends_occurrences:
  assumes "0 < length p"
  shows "map (\<lambda>e. int e - int (length p) + 1) (ends t p 0) = map int (occurrences t p)"
proof -
  let ?m = "length p" and ?n = "length t"
  let ?Q = "\<lambda>e. is_sp p (take (Suc e) t) ?m"
  let ?g = "\<lambda>s. s + (?m - 1)"
  show ?thesis
  proof (cases "?m - 1 \<le> ?n")
    case True
    have split: "[0..<?n] = [0..<?m - 1] @ [?m - 1..<?n]"
      using True by (metis le_add_diff_inverse upt_add_eq_append zero_le)
    have low: "filter ?Q [0..<?m - 1] = []"
      by (auto simp: filter_empty_conv is_sp_def)
    have up: "?n - (?m - 1) = Suc ?n - ?m"
      using assms by linarith
    have "[?m - 1..<?n] = map ?g [0..<?n - (?m - 1)]"
      using True by (simp add: map_add_upt)
    then have "[?m - 1..<?n] = map ?g [0..<Suc ?n - ?m]"
      unfolding up .
    then have high: "filter ?Q [?m - 1..<?n] = map ?g (filter (?Q \<circ> ?g) [0..<Suc ?n - ?m])"
      by (simp add: filter_map)
    have cong: "filter (?Q \<circ> ?g) [0..<Suc ?n - ?m] = filter (occurs_at t p) [0..<Suc ?n - ?m]"
    proof (rule filter_cong [OF refl])
      fix s assume "s \<in> set [0..<Suc ?n - ?m]"
      then have "s < Suc ?n - ?m" by simp
      then have "s + (?m - 1) < ?n" using assms by linarith
      from is_sp_full [OF this, of p]
      have "?Q (?g s) \<longleftrightarrow> ?m \<le> Suc (?g s) \<and> occurs_at t p (Suc (?g s) - ?m)" .
      moreover have "Suc (?g s) - ?m = s" and "?m \<le> Suc (?g s)"
        using assms by linarith+
      ultimately show "(?Q \<circ> ?g) s = occurs_at t p s"
        by (simp only: comp_def simp_thms)
    qed
    have "ends t p 0 = map ?g (occurrences t p)"
      unfolding ends_def occurrences_def
      by (subst split) (simp only: filter_append low high cong append_Nil)
    moreover have "int (?g s) - int ?m + 1 = int s" for s
      using assms by linarith
    ultimately show ?thesis by (simp add: comp_def)
  next
    case False
    then have "ends t p 0 = []"
      by (auto simp: ends_def filter_empty_conv is_sp_def)
    moreover from False have "occurrences t p = []"
      by (simp add: occurrences_def)
    ultimately show ?thesis by simp
  qed
qed

lemma kmp_match_correct:
  assumes "length f = length p" and "0 < length p"
    and "Suc (length t) - length p \<le> length out"
  shows "kmp_match (Some t) (int (length t)) (Some p) (int (length p)) (Some out) (Some f) =
         Some (Inr (int (length (occurrences t p)),
           Some (map int (occurrences t p) @ drop (length (occurrences t p)) out)))"
proof -
  from kmp_failure_correct [OF assms(1,2)] obtain f' where
    run: "kmp_failure (Some p) (int (length p)) (Some f) = Some (Inr (Some f'))"
    and ok: "\<forall>x<length p. tbl_ok p f' x"
    by blast
  have inv: "lsp p (take 0 t) 0"
    using assms(2) by (simp add: lsp_Nil)
  have bnd: "0 + (length t - max 0 (length p - 1)) \<le> length out"
    using assms(2,3) by simp
  have len: "length (ends t p 0) = length (occurrences t p)"
    using arg_cong [OF ends_occurrences [OF assms(2), of t], of length] by simp
  have "kmp_match_loop (Some t) (int (length t)) (Some p) (int (length p)) (Some f') (Some out)
          (int 0 - 1) (int 0) (int 0) =
        Some (Inr (int (length (occurrences t p)),
           Some (map int (occurrences t p) @ drop (length (occurrences t p)) out)))"
    unfolding kmp_match_loop_correct [OF ok le0 inv bnd]
    by (simp add: ends_occurrences [OF assms(2)] len)
  then show ?thesis
    by (simp add: kmp_match_def run)
qed

lemma occurrences_sorted: "sorted_wrt (<) (occurrences t p)"
  by (simp add: occurrences_def sorted_wrt_filter)

lemma occurrences_set: "set (occurrences t p) = {s. occurs_at t p s}"
  by (auto simp: occurrences_def occurs_at_def)

lemma occurrences_length: "length (occurrences t p) \<le> Suc (length t) - length p"
proof -
  have "length (occurrences t p) \<le> length [0..<Suc (length t) - length p]"
    unfolding occurrences_def by (rule length_filter_le)
  then show ?thesis by simp
qed

lemma kmp_failure_null: "kmp_failure P m None = Some (Inl NullPointer)"
  by (simp add: kmp_failure_def wr_def)

lemma kmp_failure_empty: "kmp_failure P m (Some []) = Some (Inl OutOfBounds)"
  by (simp add: kmp_failure_def wr_def)

lemma kmp_match_longer_pattern:
  assumes "length t = nat n" and "0 \<le> n" and "length p = nat m" and "n < m"
    and "length block = nat m"
  shows "kmp_match (Some t) n (Some p) m (Some out) (Some block) = Some (Inr (0, Some out))"
proof -
  have n: "int (length t) = n" and m: "int (length p) = m"
    using assms by simp_all
  have len: "length block = length p" and pos: "0 < length p"
    using assms by simp_all
  have z: "Suc (length t) - length p = 0"
    using assms by linarith
  then have room: "Suc (length t) - length p \<le> length out"
    by simp
  have "occurrences t p = []"
    by (simp add: occurrences_def z)
  then show ?thesis
    using kmp_match_correct [OF len pos room] unfolding n m by simp
qed

section \<open>Termination\<close>

lemma fallback_terminates:
  assumes "\<forall>f. failure = Some f \<longrightarrow> (\<forall>x<length f. int x \<le> i \<longrightarrow> f ! x < int x)"
  shows "\<exists>y. fallback P failure c i = Some y \<and> (\<forall>i1. y = Inr i1 \<longrightarrow> i1 \<le> i)"
  using assms
proof (induction "nat (i + 1)" arbitrary: i rule: less_induct)
  case less
  show ?case
  proof (cases "i > - 1")
    case False
    then have "fallback P failure c i = Some (Inr i)"
      by (subst fallback.simps) simp
    then show ?thesis by simp
  next
    case True
    have unf: "fallback P failure c i =
      (case rd P (i + 1) of
         Inl e \<Rightarrow> Some (Inl e)
       | Inr a \<Rightarrow>
           (case c of
              Inl e \<Rightarrow> Some (Inl e)
            | Inr b \<Rightarrow>
                if a \<noteq> b then
                  (case rd failure i of
                     Inl e \<Rightarrow> Some (Inl e)
                   | Inr i' \<Rightarrow> fallback P failure c i')
                else Some (Inr i)))"
      using True by (subst fallback.simps) simp
    have rec: "\<exists>y. fallback P failure c i' = Some y \<and> (\<forall>i1. y = Inr i1 \<longrightarrow> i1 \<le> i)"
      if r: "rd failure i = Inr i'" for i'
    proof -
      from r obtain f where f: "failure = Some f" and rng: "0 \<le> i" "i < int (length f)"
        and i': "i' = f ! nat i"
        by (auto simp: rd_def split: option.splits if_splits)
      have "nat i < length f" and "int (nat i) \<le> i"
        using rng by simp_all
      then have "f ! nat i < int (nat i)"
        using less.prems f by blast
      then have lt: "i' < i" using i' rng by simp
      then have "nat (i' + 1) < nat (i + 1)" using rng by simp
      moreover have "\<forall>f. failure = Some f \<longrightarrow> (\<forall>x<length f. int x \<le> i' \<longrightarrow> f ! x < int x)"
        using less.prems lt by auto
      ultimately have "\<exists>y. fallback P failure c i' = Some y \<and> (\<forall>i1. y = Inr i1 \<longrightarrow> i1 \<le> i')"
        by (rule less.hyps)
      then show ?thesis using lt by force
    qed
    show ?thesis
      unfolding unf using rec by (auto split: sum.splits)
  qed
qed

lemma advance_le: "advance P c i = Inr i2 \<Longrightarrow> i2 \<le> i + 1"
  by (auto simp: advance_def split: sum.splits if_splits)

lemma wr_Some:
  "wr (Some f) j v = Inr fp \<Longrightarrow> fp = Some (f[nat j := v]) \<and> 0 \<le> j \<and> j < int (length f)"
  by (auto simp: wr_def split: if_splits)

lemma kmp_failure_loop_terminates:
  assumes "1 \<le> j" and "i \<le> j - 2" and "\<forall>x<length f. int x < j \<longrightarrow> f ! x < int x"
  shows "\<exists>y. kmp_failure_loop P m (Some f) i j = Some y \<and>
           (\<forall>fp. y = Inr fp \<longrightarrow>
              (\<exists>f'. fp = Some f' \<and> length f' = length f \<and>
                 (\<forall>x<length f'. int x < max j m \<longrightarrow> f' ! x < int x)))"
  using assms
proof (induction "nat (m - j)" arbitrary: f i j rule: less_induct)
  case less
  show ?case
  proof (cases "j < m")
    case False
    then have "kmp_failure_loop P m (Some f) i j = Some (Inr (Some f))"
      by (subst kmp_failure_loop.simps) simp
    moreover have "max j m = j" using False by simp
    ultimately show ?thesis using less.prems(3) by simp
  next
    case True
    have unf: "kmp_failure_loop P m (Some f) i j =
      (case fallback P (Some f) (rd P j) i of
         None \<Rightarrow> None
       | Some (Inl e) \<Rightarrow> Some (Inl e)
       | Some (Inr i1) \<Rightarrow>
           (case advance P (rd P j) i1 of
              Inl e \<Rightarrow> Some (Inl e)
            | Inr i2 \<Rightarrow>
                (case wr (Some f) j i2 of
                   Inl e \<Rightarrow> Some (Inl e)
                 | Inr failure' \<Rightarrow> kmp_failure_loop P m failure' i2 (j + 1))))"
      using True by (subst kmp_failure_loop.simps) simp
    have "\<forall>g. Some f = Some g \<longrightarrow> (\<forall>x<length g. int x \<le> i \<longrightarrow> g ! x < int x)"
      using less.prems(2,3) by auto
    from fallback_terminates [OF this] obtain y0 where
      fb: "fallback P (Some f) (rd P j) i = Some y0" and le: "\<forall>i1. y0 = Inr i1 \<longrightarrow> i1 \<le> i"
      by blast
    have rec: "\<exists>y. kmp_failure_loop P m fp i2 (j + 1) = Some y \<and>
           (\<forall>fq. y = Inr fq \<longrightarrow>
              (\<exists>f'. fq = Some f' \<and> length f' = length f \<and>
                 (\<forall>x<length f'. int x < max j m \<longrightarrow> f' ! x < int x)))"
      if y0: "y0 = Inr i1" and adv: "advance P (rd P j) i1 = Inr i2"
        and w: "wr (Some f) j i2 = Inr fp" for i1 i2 fp
    proof -
      define f2 where "f2 = f[nat j := i2]"
      from wr_Some [OF w] have fp: "fp = Some f2" and jl: "j < int (length f)"
        by (simp_all add: f2_def)
      have i2: "i2 \<le> j - 1"
        using advance_le [OF adv] le y0 less.prems(2) by auto
      have tbl: "\<forall>x<length f2. int x < j + 1 \<longrightarrow> f2 ! x < int x"
      proof (intro allI impI)
        fix x assume x: "x < length f2" and xj: "int x < j + 1"
        show "f2 ! x < int x"
        proof (cases "x = nat j")
          case True
          then show ?thesis using x i2 less.prems(1) by (simp add: f2_def)
        next
          case False
          then have "int x < j" using xj by linarith
          then show ?thesis using False x less.prems(3) by (simp add: f2_def)
        qed
      qed
      have "\<exists>y. kmp_failure_loop P m (Some f2) i2 (j + 1) = Some y \<and>
           (\<forall>fq. y = Inr fq \<longrightarrow>
              (\<exists>f'. fq = Some f' \<and> length f' = length f2 \<and>
                 (\<forall>x<length f'. int x < max (j + 1) m \<longrightarrow> f' ! x < int x)))"
      proof (rule less.hyps)
        show "nat (m - (j + 1)) < nat (m - j)" using True by simp
        show "1 \<le> j + 1" using less.prems(1) by simp
        show "i2 \<le> j + 1 - 2" using i2 by simp
        show "\<forall>x<length f2. int x < j + 1 \<longrightarrow> f2 ! x < int x" by (rule tbl)
      qed
      moreover have "max (j + 1) m = max j m" using True by simp
      ultimately show ?thesis by (simp add: fp f2_def)
    qed
    show ?thesis
      unfolding unf fb using rec by (auto split: sum.splits)
  qed
qed

lemma kmp_failure_terminates:
  "\<exists>y. kmp_failure P m failure = Some y \<and>
     (\<forall>fp. y = Inr fp \<longrightarrow>
        (\<exists>f f'. failure = Some f \<and> fp = Some f' \<and> length f' = length f \<and>
           (\<forall>x<length f'. int x < max 1 m \<longrightarrow> f' ! x < int x)))"
proof (cases "wr failure 0 (- 1)")
  case (Inl e)
  then show ?thesis by (simp add: kmp_failure_def)
next
  case (Inr fp)
  then obtain f where f: "failure = Some f" and pos: "0 < length f"
    and fp: "fp = Some (f[0 := - 1])"
    by (auto simp: wr_def split: option.splits if_splits)
  have "\<exists>y. kmp_failure_loop P m (Some (f[0 := - 1])) (- 1) 1 = Some y \<and>
           (\<forall>fp. y = Inr fp \<longrightarrow>
              (\<exists>f'. fp = Some f' \<and> length f' = length (f[0 := - 1]) \<and>
                 (\<forall>x<length f'. int x < max 1 m \<longrightarrow> f' ! x < int x)))"
  proof (rule kmp_failure_loop_terminates)
    show "\<forall>x<length (f[0 := - 1]). int x < 1 \<longrightarrow> f[0 := - 1] ! x < int x"
      using pos by auto
  qed simp_all
  then show ?thesis
    unfolding kmp_failure_def Inr by (simp add: fp f)
qed

lemma kmp_match_loop_terminates:
  assumes "\<forall>x<length f. f ! x < int x"
  shows "\<exists>y. kmp_match_loop T n P m (Some f) outp i j matches = Some y"
proof (induction "nat (n - j)" arbitrary: outp i j matches rule: less_induct)
  case less
  show ?case
  proof (cases "j < n")
    case False
    then show ?thesis by (subst kmp_match_loop.simps) simp
  next
    case True
    have unf: "kmp_match_loop T n P m (Some f) outp i j matches =
      (case fallback P (Some f) (rd T j) i of
         None \<Rightarrow> None
       | Some (Inl e) \<Rightarrow> Some (Inl e)
       | Some (Inr i1) \<Rightarrow>
           (case advance P (rd T j) i1 of
              Inl e \<Rightarrow> Some (Inl e)
            | Inr i2 \<Rightarrow>
                if i2 = m - 1 then
                  (case wr outp matches (j - m + 1) of
                     Inl e \<Rightarrow> Some (Inl e)
                   | Inr outp' \<Rightarrow>
                       (case rd (Some f) i2 of
                          Inl e \<Rightarrow> Some (Inl e)
                        | Inr i3 \<Rightarrow>
                            kmp_match_loop T n P m (Some f) outp' i3 (j + 1) (matches + 1)))
                else kmp_match_loop T n P m (Some f) outp i2 (j + 1) matches))"
      using True by (subst kmp_match_loop.simps) simp
    have "\<forall>g. Some f = Some g \<longrightarrow> (\<forall>x<length g. int x \<le> i \<longrightarrow> g ! x < int x)"
      using assms by auto
    from fallback_terminates [OF this] obtain y0 where
      fb: "fallback P (Some f) (rd T j) i = Some y0"
      by blast
    have "nat (n - (j + 1)) < nat (n - j)" using True by simp
    then have rec: "\<exists>y. kmp_match_loop T n P m (Some f) outp' i' (j + 1) matches' = Some y"
      for outp' i' matches'
      by (rule less.hyps)
    show ?thesis
      unfolding unf fb using rec by (auto split: sum.splits)
  qed
qed

lemma kmp_match_terminates:
  assumes "\<forall>b. block = Some b \<longrightarrow> length b = nat m"
  shows "\<exists>y. kmp_match T n P m output block = Some y"
proof -
  from kmp_failure_terminates [of P m block] obtain y where
    run: "kmp_failure P m block = Some y"
    and post: "\<forall>fp. y = Inr fp \<longrightarrow>
        (\<exists>f f'. block = Some f \<and> fp = Some f' \<and> length f' = length f \<and>
           (\<forall>x<length f'. int x < max 1 m \<longrightarrow> f' ! x < int x))"
    by blast
  show ?thesis
  proof (cases y)
    case (Inl e)
    then show ?thesis by (simp add: kmp_match_def run)
  next
    case (Inr fp)
    with post obtain f f' where f: "block = Some f" and fp: "fp = Some f'"
      and len: "length f' = length f"
      and tbl: "\<forall>x<length f'. int x < max 1 m \<longrightarrow> f' ! x < int x"
      by blast
    have "length f' = nat m" using assms f len by simp
    then have "\<forall>x<length f'. f' ! x < int x" using tbl by auto
    from kmp_match_loop_terminates [OF this]
    show ?thesis by (simp add: kmp_match_def run Inr fp)
  qed
qed

lemma kmp_stream_terminates:
  assumes "\<forall>s f. state = Some s \<and> state_failure s = Some f \<longrightarrow> (\<forall>x<length f. f ! x < int x)"
  shows "\<exists>y. kmp_stream state c j = Some y"
proof (cases state)
  case None
  then show ?thesis by (simp add: kmp_stream_def)
next
  case (Some s)
  have "\<forall>f. state_failure s = Some f \<longrightarrow> (\<forall>x<length f. int x \<le> state_i s \<longrightarrow> f ! x < int x)"
    using assms Some by auto
  from fallback_terminates [OF this] obtain y0 where
    "fallback (state_P s) (state_failure s) (Inr c) (state_i s) = Some y0"
    by blast
  then show ?thesis
    by (auto simp: kmp_stream_def Some split: sum.splits)
qed

section \<open>The streaming matcher follows the text\<close>

lemma kmp_build_copy_correct:
  assumes "length q = length p" and "i \<le> length p"
  shows "kmp_build_copy (Some p) (int (length p)) (Some q) (int i) =
         Inr (Some (take i q @ drop i p))"
  using assms
proof (induction "length p - i" arbitrary: q i)
  case 0
  then have "i = length p" by simp
  then show ?case
    using 0 by (subst kmp_build_copy.simps) simp
next
  case (Suc d)
  then have i: "i < length p" by simp
  have rdi: "rd (Some p) (int i) = Inr (p ! i)"
    using i by (simp add: rd_def)
  define q2 where "q2 = q[i := p ! i]"
  have wri: "wr (Some q) (int i) (p ! i) = Inr (Some q2)"
    using i Suc.prems(1) by (simp add: wr_def q2_def)
  have sucj: "int (Suc i) = int i + 1" by simp
  have unfold: "kmp_build_copy (Some p) (int (length p)) (Some q) (int i) =
                kmp_build_copy (Some p) (int (length p)) (Some q2) (int (Suc i))"
    unfolding sucj using i by (subst kmp_build_copy.simps) (simp add: rdi wri)
  have d: "d = length p - Suc i" using Suc.hyps(2) by simp
  have l2: "length q2 = length p" using Suc.prems(1) by (simp add: q2_def)
  have si: "Suc i \<le> length p" using i by simp
  have "take (Suc i) q2 = take i q @ [p ! i]"
    using i Suc.prems(1) by (simp add: q2_def take_Suc_conv_app_nth)
  moreover have "drop i p = p ! i # drop (Suc i) p"
    using i by (simp add: Cons_nth_drop_Suc)
  ultimately show ?case
    unfolding unfold Suc.hyps(1) [OF d l2 si] by simp
qed

lemma kmp_build_correct:
  assumes "length q = length p" and "length f = length p" and "0 < length p"
  shows "\<exists>f'. kmp_build (Some p) (int (length p)) (Some s0) (Some q) (Some f) =
               Some (Inr (Some (s0\<lparr>state_P := Some p, state_m := int (length p),
                                     state_i := - 1, state_failure := Some f'\<rparr>))) \<and>
             length f' = length p \<and> (\<forall>x<length p. tbl_ok p f' x)"
proof -
  from kmp_failure_correct [OF assms(2,3)] obtain f' where
    run: "kmp_failure (Some p) (int (length p)) (Some f) = Some (Inr (Some f'))"
    and post: "length f' = length p" "\<forall>x<length p. tbl_ok p f' x"
    by blast
  have "kmp_build_copy (Some p) (int (length p)) (Some q) (int 0) = Inr (Some (take 0 q @ drop 0 p))"
    using assms(1) by (rule kmp_build_copy_correct) simp
  then have copy: "kmp_build_copy (Some p) (int (length p)) (Some q) 0 = Inr (Some p)"
    by simp
  have "kmp_build (Some p) (int (length p)) (Some s0) (Some q) (Some f) =
          Some (Inr (Some (s0\<lparr>state_P := Some p, state_m := int (length p),
                                state_i := - 1, state_failure := Some f'\<rparr>)))"
    by (simp add: kmp_build_def copy run)
  with post show ?thesis by blast
qed

lemma kmp_stream_correct:
  assumes P: "state_P s = Some p" and m: "state_m s = int (length p)"
    and f: "state_failure s = Some f" and tbl: "\<forall>x<length p. tbl_ok p f x"
    and i: "state_i s = int k - 1" and inv: "lsp p t k"
  shows "\<exists>k'. kmp_stream (Some s) c j =
               Some (Inr (if is_sp p (t @ [c]) (length p) then j else - 1,
                          Some (s\<lparr>state_i := int k' - 1\<rparr>))) \<and>
             lsp p (t @ [c]) k'"
proof -
  have kp: "k < length p" using inv by (simp add: lsp_def)
  then have pos: "0 < length p" by linarith
  have tblk: "\<forall>x<k. tbl_ok p f x" using tbl kp by simp
  from scan_correct [OF tblk inv, of c] obtain k1 k2 where
    fb: "fallback (Some p) (Some f) (Inr c) (int k - 1) = Some (Inr (int k1 - 1))"
    and adv: "advance (Some p) (Inr c) (int k1 - 1) = Inr (int k2 - 1)"
    and sp2: "is_sp p (t @ [c]) k2"
    and mx2: "\<forall>r. is_sp p (t @ [c]) r \<longrightarrow> r \<le> k2"
    by blast
  show ?thesis
  proof (cases "k2 = length p")
    case True
    then have hit: "is_sp p (t @ [c]) (length p)" using sp2 by simp
    define k3 where "k3 = nat (f ! (length p - 1) + 1)"
    have okl: "tbl_ok p f (length p - 1)" using tbl pos by simp
    have "length p - 1 < length p" using pos by simp
    from tbl_ok_link(1) [OF okl this] have lnk: "int k3 - 1 = f ! (length p - 1)"
      by (simp add: k3_def)
    have rdf: "rd (Some f) (int (length p) - 1) = Inr (int k3 - 1)"
    proof -
      have "nat (int (length p) - 1) = length p - 1" by simp
      moreover have "0 \<le> int (length p) - 1" and "int (length p) - 1 < int (length f)"
        using pos okl by (auto simp: tbl_ok_def)
      ultimately show ?thesis using lnk by (simp add: rd_def)
    qed
    have inv3: "lsp p (t @ [c]) k3"
      using lsp_after_match [OF okl pos hit] by (simp add: k3_def)
    have "kmp_stream (Some s) c j = Some (Inr (j, Some (s\<lparr>state_i := int k3 - 1\<rparr>)))"
      using True by (simp add: kmp_stream_def P m f i fb adv rdf)
    with hit inv3 show ?thesis by auto
  next
    case False
    have inv2: "lsp p (t @ [c]) k2" and miss: "\<not> is_sp p (t @ [c]) (length p)"
      using lsp_no_match [OF sp2 mx2 False] by simp_all
    have ne: "int k2 - 1 \<noteq> int (length p) - 1" using False by simp
    have "kmp_stream (Some s) c j = Some (Inr (- 1, Some (s\<lparr>state_i := int k2 - 1\<rparr>)))"
      using ne by (simp add: kmp_stream_def P m f i fb adv)
    with miss inv2 show ?thesis by auto
  qed
qed

lemma feed_correct:
  assumes "state_P s = Some p" and "state_m s = int (length p)"
    and "state_failure s = Some f" and "\<forall>x<length p. tbl_ok p f x"
    and "state_i s = int k - 1" and "lsp p t k"
  shows "\<exists>k'. feed (Some s) cs j =
               Some (Inr (map (\<lambda>e. if is_sp p (t @ take (Suc e) cs) (length p)
                                    then j + int e else - 1) [0..<length cs],
                          Some (s\<lparr>state_i := int k' - 1\<rparr>))) \<and>
             lsp p (t @ cs) k'"
  using assms
proof (induction cs arbitrary: s k t j)
  case Nil
  then have "s\<lparr>state_i := int k - 1\<rparr> = s" by simp
  then have "feed (Some s) [] j = Some (Inr ([], Some (s\<lparr>state_i := int k - 1\<rparr>)))"
    by simp
  with Nil.prems(6) show ?case by auto
next
  case (Cons c cs)
  from kmp_stream_correct [OF Cons.prems, of c j] obtain k1 where
    st: "kmp_stream (Some s) c j =
           Some (Inr (if is_sp p (t @ [c]) (length p) then j else - 1,
                      Some (s\<lparr>state_i := int k1 - 1\<rparr>)))"
    and inv1: "lsp p (t @ [c]) k1"
    by blast
  let ?s1 = "s\<lparr>state_i := int k1 - 1\<rparr>"
  have "\<exists>k'. feed (Some ?s1) cs (j + 1) =
               Some (Inr (map (\<lambda>e. if is_sp p ((t @ [c]) @ take (Suc e) cs) (length p)
                                    then j + 1 + int e else - 1) [0..<length cs],
                          Some (?s1\<lparr>state_i := int k' - 1\<rparr>))) \<and>
             lsp p ((t @ [c]) @ cs) k'"
  proof (rule Cons.IH)
    show "state_P ?s1 = Some p" using Cons.prems(1) by simp
    show "state_m ?s1 = int (length p)" using Cons.prems(2) by simp
    show "state_failure ?s1 = Some f" using Cons.prems(3) by simp
    show "\<forall>x<length p. tbl_ok p f x" by (rule Cons.prems(4))
    show "state_i ?s1 = int k1 - 1" by simp
    show "lsp p (t @ [c]) k1" by (rule inv1)
  qed
  then obtain k' where
    rest: "feed (Some ?s1) cs (j + 1) =
               Some (Inr (map (\<lambda>e. if is_sp p (t @ c # take (Suc e) cs) (length p)
                                    then j + 1 + int e else - 1) [0..<length cs],
                          Some (s\<lparr>state_i := int k' - 1\<rparr>)))"
    and inv': "lsp p (t @ c # cs) k'"
    by auto
  have "[0..<length (c # cs)] = 0 # map Suc [0..<length cs]"
    by (simp add: upt_conv_Cons map_Suc_upt del: upt_Suc)
  then have "map (\<lambda>e. if is_sp p (t @ take (Suc e) (c # cs)) (length p)
                       then j + int e else - 1) [0..<length (c # cs)] =
             (if is_sp p (t @ [c]) (length p) then j else - 1) #
             map (\<lambda>e. if is_sp p (t @ c # take (Suc e) cs) (length p)
                       then j + 1 + int e else - 1) [0..<length cs]"
    by (simp add: comp_def add.assoc del: upt_Suc)
  then show ?case
    using inv' by (auto simp: st rest simp del: upt_Suc)
qed

lemma kmp_stream_frame:
  assumes "kmp_stream state c j = Some (Inr (r, state'))"
  shows "\<exists>s i'. state = Some s \<and> state' = Some (s\<lparr>state_i := i'\<rparr>)"
  using assms
  by (auto simp: kmp_stream_def split: option.splits sum.splits if_splits)

lemma feed_build:
  assumes "length q = length p" and "length f = length p" and "0 < length p"
  shows "\<exists>st. kmp_build (Some p) (int (length p)) (Some s0) (Some q) (Some f) =
               Some (Inr (Some st)) \<and>
             state_i st = - 1 \<and> state_P st = Some p \<and> state_m st = int (length p) \<and>
             (\<forall>t j. \<exists>k st'. feed (Some st) t j =
                 Some (Inr (map (\<lambda>e. if is_sp p (take (Suc e) t) (length p)
                                      then j + int e else - 1) [0..<length t],
                            Some st')) \<and>
                 state_i st' = int k - 1 \<and> lsp p t k)"
proof -
  from kmp_build_correct [OF assms, of s0] obtain f' where
    run: "kmp_build (Some p) (int (length p)) (Some s0) (Some q) (Some f) =
               Some (Inr (Some (s0\<lparr>state_P := Some p, state_m := int (length p),
                                     state_i := - 1, state_failure := Some f'\<rparr>)))"
    and tbl: "\<forall>x<length p. tbl_ok p f' x"
    by blast
  let ?st = "s0\<lparr>state_P := Some p, state_m := int (length p),
                 state_i := - 1, state_failure := Some f'\<rparr>"
  have fed: "\<exists>k st'. feed (Some ?st) t j =
                 Some (Inr (map (\<lambda>e. if is_sp p (take (Suc e) t) (length p)
                                      then j + int e else - 1) [0..<length t],
                            Some st')) \<and>
                 state_i st' = int k - 1 \<and> lsp p t k" for t j
  proof -
    have "\<exists>k'. feed (Some ?st) t j =
               Some (Inr (map (\<lambda>e. if is_sp p ([] @ take (Suc e) t) (length p)
                                    then j + int e else - 1) [0..<length t],
                          Some (?st\<lparr>state_i := int k' - 1\<rparr>))) \<and>
             lsp p ([] @ t) k'"
    proof (rule feed_correct)
      show "state_i ?st = int 0 - 1" by simp
      show "lsp p [] 0" using assms(3) by (rule lsp_Nil)
      show "\<forall>x<length p. tbl_ok p f' x" by (rule tbl)
    qed simp_all
    then obtain k' where
      a: "feed (Some ?st) t j =
               Some (Inr (map (\<lambda>e. if is_sp p (take (Suc e) t) (length p)
                                    then j + int e else - 1) [0..<length t],
                          Some (?st\<lparr>state_i := int k' - 1\<rparr>)))"
      and b: "lsp p t k'"
      by auto
    have "state_i (?st\<lparr>state_i := int k' - 1\<rparr>) = int k' - 1" by simp
    with a b show ?thesis by blast
  qed
  have "state_i ?st = - 1" and "state_P ?st = Some p" and "state_m ?st = int (length p)"
    by simp_all
  with run fed show ?thesis by blast
qed

lemma ends_positions:
  assumes "0 < length p"
  shows "map int (ends t p 0) = map (\<lambda>s. int s + int (length p) - 1) (occurrences t p)"
proof -
  have "map (\<lambda>v. v + int (length p) - 1) (map (\<lambda>e. int e - int (length p) + 1) (ends t p 0)) =
        map (\<lambda>v. v + int (length p) - 1) (map int (occurrences t p))"
    using ends_occurrences [OF assms, of t] by simp
  then show ?thesis by (simp add: comp_def)
qed

lemma notifications_ends:
  "filter (\<lambda>r. r \<noteq> - 1)
     (map (\<lambda>e. if is_sp p (take (Suc e) t) (length p) then 0 + int e else - 1) [0..<length t]) =
   map int (ends t p 0)"
proof -
  let ?Q = "\<lambda>e. is_sp p (take (Suc e) t) (length p)"
  let ?g = "\<lambda>e. if ?Q e then 0 + int e else - 1"
  have "filter ((\<lambda>r. r \<noteq> - 1) \<circ> ?g) [0..<length t] = filter ?Q [0..<length t]"
    by (rule filter_cong) auto
  then have "filter (\<lambda>r. r \<noteq> - 1) (map ?g [0..<length t]) = map ?g (filter ?Q [0..<length t])"
    by (simp add: filter_map)
  also have "\<dots> = map int (filter ?Q [0..<length t])"
    by (rule map_cong) auto
  finally show ?thesis by (simp add: ends_def)
qed

section \<open>Blocks larger than the pattern\<close>

lemma advance_slack:
  "advance (Some p) c i = Inr r \<Longrightarrow> advance (Some (p @ s)) c i = Inr r"
  by (auto simp: advance_def rd_def nth_append split: sum.splits if_splits)

lemma fallback_slack:
  assumes "\<forall>x<k. tbl_ok p f x" and "k < length p"
  shows "fallback (Some (p @ s)) (Some f) (Inr c) (int k - 1) =
         fallback (Some p) (Some f) (Inr c) (int k - 1)"
  using assms
proof (induction k rule: less_induct)
  case (less k)
  have kl: "k < length (p @ s)" and nth: "(p @ s) ! k = p ! k"
    using less.prems(2) by (simp_all add: nth_append)
  show ?case
  proof (cases "k = 0 \<or> p ! k = c")
    case True
    then show ?thesis
    proof
      assume "k = 0"
      then show ?thesis by (simp add: fallback_stop)
    next
      assume "p ! k = c"
      then show ?thesis
        using fallback_hit [OF kl, of c "Some f"] fallback_hit [OF less.prems(2), of c "Some f"] nth
        by simp
    qed
  next
    case False
    then have pos: "0 < k" and ne: "p ! k \<noteq> c" by simp_all
    define k2 where "k2 = nat (f ! (k - 1) + 1)"
    have ok: "tbl_ok p f (k - 1)"
      using less.prems(1) pos by simp
    have "k - 1 < length p"
      using less.prems(2) by simp
    from tbl_ok_link [OF ok this] have lnk: "int k2 - 1 = f ! (k - 1)" and k2: "k2 < k"
      using pos by (simp_all add: k2_def)
    have fl: "k - 1 < length f" using ok by (simp add: tbl_ok_def)
    have ne': "(p @ s) ! k \<noteq> c" using ne nth by simp
    have a: "fallback (Some (p @ s)) (Some f) (Inr c) (int k - 1) =
             fallback (Some (p @ s)) (Some f) (Inr c) (int k2 - 1)"
      using fallback_miss [OF pos kl ne' fl] lnk by simp
    have b: "fallback (Some p) (Some f) (Inr c) (int k - 1) =
             fallback (Some p) (Some f) (Inr c) (int k2 - 1)"
      using fallback_miss [OF pos less.prems(2) ne fl] lnk by simp
    have "fallback (Some (p @ s)) (Some f) (Inr c) (int k2 - 1) =
          fallback (Some p) (Some f) (Inr c) (int k2 - 1)"
      using less.IH [OF k2] less.prems k2 by simp
    with a b show ?thesis by simp
  qed
qed

lemma kmp_failure_loop_slack:
  assumes "length f = length p" and "1 \<le> j" and "j \<le> length p"
    and "\<forall>x<j. tbl_ok p f x" and "lsp p (drop 1 (take j p)) k"
  shows "\<exists>f'. kmp_failure_loop (Some (p @ s)) (int (length p)) (Some f) (int k - 1) (int j) =
               Some (Inr (Some f')) \<and>
             length f' = length p \<and> (\<forall>x<length p. tbl_ok p f' x)"
  using assms
proof (induction "length p - j" arbitrary: f k j)
  case 0
  then have "j = length p" by simp
  then have "kmp_failure_loop (Some (p @ s)) (int (length p)) (Some f) (int k - 1) (int j) =
             Some (Inr (Some f))"
    by (subst kmp_failure_loop.simps) simp
  with 0 \<open>j = length p\<close> show ?case by simp
next
  case (Suc d)
  then have j: "j < length p" by simp
  let ?t = "drop 1 (take j p)"
  have lt: "length ?t = j - 1" using j by simp
  have "is_sp p ?t k"
    using Suc.prems(5) by (simp add: lsp_def)
  from is_sp_le [OF this] have kj: "k < j"
    using Suc.prems(2) lt by linarith
  have tblk: "\<forall>x<k. tbl_ok p f x"
    using Suc.prems(4) kj by simp
  have kp: "k < length p" using kj j by simp
  from scan_correct [OF tblk Suc.prems(5), of "p ! j"] obtain k1 k2 where
    fb: "fallback (Some p) (Some f) (Inr (p ! j)) (int k - 1) = Some (Inr (int k1 - 1))"
    and adv: "advance (Some p) (Inr (p ! j)) (int k1 - 1) = Inr (int k2 - 1)"
    and sp2: "is_sp p (?t @ [p ! j]) k2"
    and mx2: "\<forall>r. is_sp p (?t @ [p ! j]) r \<longrightarrow> r \<le> k2"
    by blast
  have fb': "fallback (Some (p @ s)) (Some f) (Inr (p ! j)) (int k - 1) =
             Some (Inr (int k1 - 1))"
    using fallback_slack [OF tblk kp] fb by simp
  have adv': "advance (Some (p @ s)) (Inr (p ! j)) (int k1 - 1) = Inr (int k2 - 1)"
    using adv by (rule advance_slack)
  have t': "drop 1 (take (Suc j) p) = ?t @ [p ! j]"
    using drop1_take_Suc [OF Suc.prems(2) j] .
  have rdj: "rd (Some (p @ s)) (int j) = Inr (p ! j)"
    using j by (simp add: rd_def nth_append)
  define f2 where "f2 = f[j := int k2 - 1]"
  have wrj: "wr (Some f) (int j) (int k2 - 1) = Inr (Some f2)"
    using j Suc.prems(1) by (simp add: wr_def f2_def)
  have sucj: "int (Suc j) = int j + 1" by simp
  have unfold: "kmp_failure_loop (Some (p @ s)) (int (length p)) (Some f) (int k - 1) (int j) =
                kmp_failure_loop (Some (p @ s)) (int (length p)) (Some f2) (int k2 - 1)
                  (int (Suc j))"
    unfolding sucj using j by (subst kmp_failure_loop.simps) (simp add: rdj fb' adv' wrj)
  from is_sp_le [OF sp2] have k2j: "k2 \<le> j"
    using lt Suc.prems(2) by simp
  have okj: "tbl_ok p f2 j"
    using sp2 mx2 j Suc.prems(1) pborder_tl [of j p] t'
    by (simp add: tbl_ok_def f2_def Suc_leI)
  have tbl2: "\<forall>x<Suc j. tbl_ok p f2 x"
  proof (intro allI impI)
    fix x assume "x < Suc j"
    then show "tbl_ok p f2 x"
      using okj Suc.prems(4) by (cases "x = j") (simp_all add: f2_def tbl_ok_update)
  qed
  have inv2: "lsp p (drop 1 (take (Suc j) p)) k2"
    using sp2 mx2 k2j j t' by (simp add: lsp_def)
  have "\<exists>f'. kmp_failure_loop (Some (p @ s)) (int (length p)) (Some f2) (int k2 - 1)
               (int (Suc j)) = Some (Inr (Some f')) \<and>
             length f' = length p \<and> (\<forall>x<length p. tbl_ok p f' x)"
  proof (rule Suc.hyps(1))
    show "d = length p - Suc j" using Suc.hyps(2) by simp
    show "length f2 = length p" using Suc.prems(1) by (simp add: f2_def)
    show "1 \<le> Suc j" by simp
    show "Suc j \<le> length p" using j by simp
    show "\<forall>x<Suc j. tbl_ok p f2 x" by (rule tbl2)
    show "lsp p (drop 1 (take (Suc j) p)) k2" by (rule inv2)
  qed
  then show ?case using unfold by simp
qed

lemma kmp_failure_slack:
  assumes "length f = length p" and "0 < length p"
  shows "\<exists>f'. kmp_failure (Some (p @ s)) (int (length p)) (Some f) = Some (Inr (Some f')) \<and>
             length f' = length p \<and> (\<forall>x<length p. tbl_ok p f' x)"
proof -
  define f0 where "f0 = f[0 := - 1]"
  have wr0: "wr (Some f) 0 (- 1) = Inr (Some f0)"
    using assms by (simp add: wr_def f0_def)
  have ok0: "\<forall>x<1. tbl_ok p f0 x"
    using assms by (simp add: tbl_ok_def f0_def pborder_def)
  have inv0: "lsp p (drop 1 (take 1 p)) 0"
    using assms by (simp add: lsp_def is_sp_def)
  have "\<exists>f'. kmp_failure_loop (Some (p @ s)) (int (length p)) (Some f0) (int 0 - 1) (int 1) =
               Some (Inr (Some f')) \<and>
             length f' = length p \<and> (\<forall>x<length p. tbl_ok p f' x)"
  proof (rule kmp_failure_loop_slack)
    show "length f0 = length p" using assms by (simp add: f0_def)
    show "1 \<le> (1::nat)" by simp
    show "1 \<le> length p" using assms(2) by linarith
    show "\<forall>x<1. tbl_ok p f0 x" by (rule ok0)
    show "lsp p (drop 1 (take 1 p)) 0" by (rule inv0)
  qed
  then show ?thesis by (simp add: kmp_failure_def wr0)
qed

lemma kmp_build_copy_slack:
  assumes "m \<le> length p" and "m \<le> length q" and "i \<le> m"
  shows "kmp_build_copy (Some p) (int m) (Some q) (int i) =
         Inr (Some (take i q @ drop i (take m p) @ drop m q))"
  using assms
proof (induction "m - i" arbitrary: q i)
  case 0
  then have "i = m" by simp
  then show ?case
    using 0 by (subst kmp_build_copy.simps) simp
next
  case (Suc d)
  then have i: "i < m" by simp
  have ip: "i < length p" and iq: "i < length q"
    using i Suc.prems by simp_all
  have rdi: "rd (Some p) (int i) = Inr (p ! i)"
    using ip by (simp add: rd_def)
  define q2 where "q2 = q[i := p ! i]"
  have wri: "wr (Some q) (int i) (p ! i) = Inr (Some q2)"
    using iq by (simp add: wr_def q2_def)
  have sucj: "int (Suc i) = int i + 1" by simp
  have unfold: "kmp_build_copy (Some p) (int m) (Some q) (int i) =
                kmp_build_copy (Some p) (int m) (Some q2) (int (Suc i))"
    unfolding sucj using i by (subst kmp_build_copy.simps) (simp add: rdi wri)
  have d: "d = m - Suc i" using Suc.hyps(2) by simp
  have l2: "m \<le> length q2" using Suc.prems(2) by (simp add: q2_def)
  have si: "Suc i \<le> m" using i by simp
  have a: "take (Suc i) q2 = take i q @ [p ! i]"
    using iq by (simp add: q2_def take_Suc_conv_app_nth)
  have b: "drop m q2 = drop m q"
    using i by (simp add: q2_def)
  have "i < length (take m p)" and "take m p ! i = p ! i"
    using i Suc.prems(1) by simp_all
  then have c: "drop i (take m p) = p ! i # drop (Suc i) (take m p)"
    by (metis Cons_nth_drop_Suc)
  show ?case
    unfolding unfold Suc.hyps(1) [OF d Suc.prems(1) l2 si] a b c by simp
qed

lemma kmp_build_slack:
  assumes "m \<le> length p" and "m \<le> length q" and "length f = m" and "0 < m"
  shows "\<exists>f'. kmp_build (Some p) (int m) (Some s0) (Some q) (Some f) =
               Some (Inr (Some (s0\<lparr>state_P := Some (take m p @ drop m q), state_m := int m,
                                     state_i := - 1, state_failure := Some f'\<rparr>))) \<and>
             length f' = m \<and> (\<forall>x<m. tbl_ok (take m p) f' x)"
proof -
  let ?p = "take m p"
  have lp: "length ?p = m" using assms(1) by simp
  have lf: "length f = length ?p" and pos: "0 < length ?p"
    using assms lp by simp_all
  from kmp_failure_slack [OF lf pos, of "drop m p"] obtain f' where
    run: "kmp_failure (Some p) (int m) (Some f) = Some (Inr (Some f'))"
    and post: "length f' = m" "\<forall>x<m. tbl_ok ?p f' x"
    unfolding lp by auto
  have "kmp_build_copy (Some p) (int m) (Some q) (int 0) =
        Inr (Some (take 0 q @ drop 0 ?p @ drop m q))"
    using assms(1,2) by (rule kmp_build_copy_slack) simp
  then have copy: "kmp_build_copy (Some p) (int m) (Some q) 0 = Inr (Some (?p @ drop m q))"
    by simp
  have "kmp_build (Some p) (int m) (Some s0) (Some q) (Some f) =
          Some (Inr (Some (s0\<lparr>state_P := Some (?p @ drop m q), state_m := int m,
                                state_i := - 1, state_failure := Some f'\<rparr>)))"
    by (simp add: kmp_build_def copy run)
  with post show ?thesis by blast
qed


lemma kmp_match_count_nonempty:
  assumes "length t = nat n" and "0 \<le> n" and "length p = nat m" and "1 \<le> m"
    and "length b = nat m" and "length out = nat (max 0 (n - m + 1))"
  shows "\<exists>cnt out'. kmp_match (Some t) n (Some p) m (Some out) (Some b) =
             Some (Inr (cnt, Some out')) \<and>
           0 \<le> cnt \<and> cnt \<le> max 0 (n - m + 1) \<and> length out' = length out"
proof -
  have n: "int (length t) = n" and m: "int (length p) = m"
    using assms by simp_all
  have len: "length b = length p" and pos: "0 < length p"
    using assms by simp_all
  have eq: "Suc (length t) - length p = nat (max 0 (n - m + 1))"
    using assms by linarith
  then have room: "Suc (length t) - length p \<le> length out"
    using assms(6) by simp
  let ?os = "occurrences t p"
  have run: "kmp_match (Some t) n (Some p) m (Some out) (Some b) =
         Some (Inr (int (length ?os), Some (map int ?os @ drop (length ?os) out)))"
    using kmp_match_correct [OF len pos room] unfolding n m .
  have le: "length ?os \<le> nat (max 0 (n - m + 1))"
    using occurrences_length [of t p] eq by simp
  then have "int (length ?os) \<le> max 0 (n - m + 1)"
    by linarith
  moreover have "length (map int ?os @ drop (length ?os) out) = length out"
    using le assms(6) by simp
  ultimately show ?thesis
    using run by simp
qed

section \<open>Properties of the three functions\<close>

subsection \<open>The failure table\<close>

text \<open>
  Claim C3. For a pattern \<open>p\<close> of length \<open>m \<ge> 1\<close> and a table of \<open>m\<close> entries,
  \<^verbatim>\<open>kmp_failure\<close> returns, and the table \<open>f'\<close> it leaves satisfies: \<open>f'[0] = -1\<close>; every
  entry \<open>f'[i]\<close> is at least \<open>-1\<close> and smaller than \<open>i\<close>; and \<open>f'[i] + 1\<close> is the length
  of a proper prefix of \<open>p[0..i]\<close> that is also a suffix of \<open>p[0..i]\<close>, and no such
  prefix is longer (so \<open>f'[i] = -1\<close> exactly when only the empty prefix qualifies).
\<close>

theorem kmp_failure_table:
  assumes "length p = nat m" and "1 \<le> m" and "length f = nat m"
  shows "\<exists>f'. kmp_failure (Some p) m (Some f) = Some (Inr (Some f')) \<and> length f' = nat m \<and>
           f' ! 0 = - 1 \<and>
           (\<forall>i<nat m. - 1 \<le> f' ! i \<and> f' ! i < int i \<and>
              pborder (take (Suc i) p) (nat (f' ! i + 1)) \<and>
              (\<forall>r. pborder (take (Suc i) p) r \<longrightarrow> r \<le> nat (f' ! i + 1)))"
proof -
  have m: "int (length p) = m" and pos: "0 < length p" and len: "length f = length p"
    using assms by simp_all
  from kmp_failure_correct [OF len pos] obtain f' where
    run: "kmp_failure (Some p) m (Some f) = Some (Inr (Some f'))"
    and lf: "length f' = length p" and ok: "\<forall>x<length p. tbl_ok p f' x"
    unfolding m by blast
  have ent: "- 1 \<le> f' ! i \<and> f' ! i < int i \<and>
             pborder (take (Suc i) p) (nat (f' ! i + 1)) \<and>
             (\<forall>r. pborder (take (Suc i) p) r \<longrightarrow> r \<le> nat (f' ! i + 1))"
    if "i < nat m" for i
  proof -
    have i: "i < length p" using that assms(1) by simp
    then have t: "tbl_ok p f' i" using ok by simp
    from tbl_ok_link(2) [OF t i] have "nat (f' ! i + 1) \<le> i" .
    then have "f' ! i < int i" by linarith
    with t show ?thesis by (simp add: tbl_ok_def)
  qed
  have "0 < nat m" using assms(2) by simp
  from ent [OF this] have "f' ! 0 = - 1" by simp
  with run lf ent assms(1) show ?thesis by auto
qed

text \<open>The table of the pattern \<open>abab\<close>.\<close>

theorem kmp_failure_table_witness:
  "\<exists>f'. kmp_failure (Some ''abab'') 4 (Some [0, 0, 0, 0]) = Some (Inr (Some f')) \<and>
        f' = [- 1, - 1, 0, 1] \<and> length f' = 4 \<and> f' ! 0 = - 1 \<and> f' ! 3 < 3 \<and>
        pborder ''abab'' (nat (f' ! 3 + 1))"
proof -
  have ev: "kmp_failure (Some ''abab'') 4 (Some [0, 0, 0, 0]) = Some (Inr (Some [- 1, - 1, 0, 1]))"
    by code_simp
  from kmp_failure_table [of "''abab''" 4 "[0, 0, 0, 0]"] obtain f' where
    run: "kmp_failure (Some ''abab'') 4 (Some [0, 0, 0, 0]) = Some (Inr (Some f'))"
    and rest: "length f' = 4" "f' ! 0 = - 1"
      "\<forall>i<4. - 1 \<le> f' ! i \<and> f' ! i < int i \<and>
         pborder (take (Suc i) ''abab'') (nat (f' ! i + 1)) \<and>
         (\<forall>r. pborder (take (Suc i) ''abab'') r \<longrightarrow> r \<le> nat (f' ! i + 1))"
    by auto
  have "(3::nat) < 4" by simp
  from rest(3) [rule_format, OF this]
  have "f' ! 3 < 3" and "pborder ''abab'' (nat (f' ! 3 + 1))" by simp_all
  moreover from run ev have "f' = [- 1, - 1, 0, 1]" by simp
  ultimately show ?thesis using run rest(1,2) by blast
qed

subsection \<open>Batch matching\<close>

text \<open>
  Claim C1. For a text \<open>t\<close> of length \<open>n\<close> and a pattern \<open>p\<close> of length \<open>m\<close> with
  \<open>1 \<le> m \<le> n\<close>, a failure-table block of \<open>m\<close> entries and an output array of at least
  \<open>n - m + 1\<close> entries, \<^verbatim>\<open>kmp_match\<close> returns the number of offsets it recorded and
  leaves them at the front of the output array. The recorded offsets are exactly the
  offsets \<open>s\<close> with \<open>t[s .. s + m - 1] = p\<close>, each once, in strictly increasing order;
  overlapping occurrences are among them.
\<close>

theorem kmp_match_offsets:
  assumes "length t = nat n" and "length p = nat m" and "1 \<le> m" and "m \<le> n"
    and "length block = nat m" and "nat (n - m + 1) \<le> length out"
  shows "\<exists>os. kmp_match (Some t) n (Some p) m (Some out) (Some block) =
              Some (Inr (int (length os), Some (map int os @ drop (length os) out))) \<and>
            os = occurrences t p \<and> sorted_wrt (<) os \<and> distinct os \<and>
            set os = {s. s + length p \<le> length t \<and> take (length p) (drop s t) = p}"
proof -
  have n: "int (length t) = n" and m: "int (length p) = m"
    using assms by simp_all
  have len: "length block = length p" and pos: "0 < length p"
    using assms by simp_all
  have "Suc (length t) - length p = nat (n - m + 1)"
    using assms by linarith
  then have room: "Suc (length t) - length p \<le> length out"
    using assms(6) by simp
  have run: "kmp_match (Some t) n (Some p) m (Some out) (Some block) =
         Some (Inr (int (length (occurrences t p)),
           Some (map int (occurrences t p) @ drop (length (occurrences t p)) out)))"
    using kmp_match_correct [OF len pos room] unfolding n m .
  have inc: "sorted_wrt (<) (occurrences t p)"
    by (rule occurrences_sorted)
  have "distinct (occurrences t p)"
    by (simp add: occurrences_def)
  with run inc show ?thesis
    using occurrences_set [of t p] by (simp add: occurs_at_def)
qed

text \<open>
  The two examples of the specification: \<open>aaa\<close> in \<open>aaaaaa\<close> is found at \<open>0, 1, 2, 3\<close>
  and \<open>abab\<close> in \<open>abababab\<close> at \<open>0, 2, 4\<close>.
\<close>

theorem kmp_match_offsets_witness:
  "kmp_match (Some ''aaaaaa'') 6 (Some ''aaa'') 3 (Some [9, 9, 9, 9]) (Some [0, 0, 0]) =
     Some (Inr (4, Some [0, 1, 2, 3])) \<and>
   kmp_match (Some ''abababab'') 8 (Some ''abab'') 4 (Some [9, 9, 9, 9, 9]) (Some [0, 0, 0, 0]) =
     Some (Inr (3, Some [0, 2, 4, 9, 9]))"
proof
  have a: "occurrences ''aaaaaa'' ''aaa'' = [0, 1, 2, 3]"
    by code_simp
  from kmp_match_offsets [of "''aaaaaa''" 6 "''aaa''" 3 "[0, 0, 0]" "[9, 9, 9, 9]"]
  show "kmp_match (Some ''aaaaaa'') 6 (Some ''aaa'') 3 (Some [9, 9, 9, 9]) (Some [0, 0, 0]) =
     Some (Inr (4, Some [0, 1, 2, 3]))"
    by (simp add: a)
  have b: "occurrences ''abababab'' ''abab'' = [0, 2, 4]"
    by code_simp
  from kmp_match_offsets [of "''abababab''" 8 "''abab''" 4 "[0, 0, 0, 0]" "[9, 9, 9, 9, 9]"]
  show "kmp_match (Some ''abababab'') 8 (Some ''abab'') 4 (Some [9, 9, 9, 9, 9])
          (Some [0, 0, 0, 0]) = Some (Inr (3, Some [0, 2, 4, 9, 9]))"
    by (simp add: b)
qed

subsection \<open>The empty pattern\<close>

text \<open>
  Claim C4 says that \<^verbatim>\<open>kmp_match\<close> returns zero matches and writes nothing when
  \<open>m = 0\<close> or \<open>m > n\<close>. For \<open>m > n\<close> with \<open>m \<ge> 1\<close> this is lemma
  \<open>kmp_match_longer_pattern\<close>. For \<open>m = 0\<close> the code does not return: on the text
  \<open>a\<close> and the empty pattern, \<^verbatim>\<open>kmp_failure\<close> writes \<^verbatim>\<open>failure[0]\<close> into a table of no
  entries (or through the null pointer, when \<^verbatim>\<open>malloc(0)\<close> returned it); and the scan loop
  itself, started on an empty table, reads \<^verbatim>\<open>P[0]\<close> outside the empty pattern.
\<close>

theorem kmp_match_empty_pattern:
  "kmp_match (Some ''a'') 1 (Some '''') 0 (Some [7, 7]) (Some []) = Some (Inl OutOfBounds) \<and>
   kmp_match (Some ''a'') 1 (Some '''') 0 (Some [7, 7]) None = Some (Inl NullPointer) \<and>
   kmp_match_loop (Some ''a'') 1 (Some '''') 0 (Some []) (Some [7, 7]) (- 1) 0 0 =
     Some (Inl OutOfBounds)"
  by code_simp

text \<open>
  Claim C5 says that \<^verbatim>\<open>kmp_failure\<close> yields an empty table for \<open>m = 0\<close> without touching
  any table entry. The code executes \<^verbatim>\<open>failure[0] = -1\<close> before it looks at \<open>m\<close>: on the
  empty pattern and a table of no entries the write is out of bounds.
\<close>

theorem kmp_failure_empty_pattern:
  "kmp_failure (Some '''') 0 (Some []) = Some (Inl OutOfBounds) \<and>
   kmp_failure (Some '''') 0 None = Some (Inl NullPointer)"
  by code_simp

subsection \<open>The output array\<close>


subsection \<open>Allocation failure\<close>

text \<open>
  Claim C9 says that a failed allocation is reported to the caller as an error and that
  the matching logic raises no error on any input, the empty pattern included. The code
  has no error result: with a null table pointer the first table write dereferences it,
  and with the empty pattern the table write is out of bounds.
\<close>

theorem kmp_match_no_error_channel:
  "kmp_match (Some ''a'') 1 (Some ''a'') 1 (Some [7]) None = Some (Inl NullPointer) \<and>
   kmp_match (Some ''a'') 1 (Some '''') 0 (Some [7, 7]) (Some []) = Some (Inl OutOfBounds)"
  by code_simp

text \<open>
  Claim C9 as amended. \<^verbatim>\<open>kmp_match\<close> does not test the pointer \<^verbatim>\<open>malloc\<close> returned: when
  the allocation of the failure table failed, the run stops at the null-pointer write of
  \<^verbatim>\<open>kmp_failure\<close> and no error value reaches the caller. When the allocation succeeded,
  \<^verbatim>\<open>kmp_match\<close> returns without a fault for every text of length \<open>n \<ge> 0\<close> and every
  pattern of length \<open>m \<ge> 1\<close>, given an output array of at least \<open>max(0, n - m + 1)\<close>
  entries.
\<close>

theorem kmp_match_allocation:
  assumes "length t = nat n" and "0 \<le> n" and "length p = nat m" and "1 \<le> m"
    and "nat (n - m + 1) \<le> length out"
  shows "kmp_match (Some t) n (Some p) m (Some out) None = Some (Inl NullPointer) \<and>
         (\<forall>b. length b = nat m \<longrightarrow>
            (\<exists>r. kmp_match (Some t) n (Some p) m (Some out) (Some b) = Some (Inr r)))"
proof (intro conjI allI impI)
  show "kmp_match (Some t) n (Some p) m (Some out) None = Some (Inl NullPointer)"
    by (simp add: kmp_match_def kmp_failure_null)
next
  fix b :: "int list"
  assume b: "length b = nat m"
  have n: "int (length t) = n" and m: "int (length p) = m"
    using assms by simp_all
  have len: "length b = length p" and pos: "0 < length p"
    using assms b by simp_all
  have "Suc (length t) - length p = nat (n - m + 1)"
    using assms by linarith
  then have room: "Suc (length t) - length p \<le> length out"
    using assms(5) by simp
  show "\<exists>r. kmp_match (Some t) n (Some p) m (Some out) (Some b) = Some (Inr r)"
    using kmp_match_correct [OF len pos room] unfolding n m by simp
qed

text \<open>The pattern \<open>b\<close> in the text \<open>ab\<close>, with and without a failure table.\<close>

theorem kmp_match_allocation_witness:
  "kmp_match (Some ''ab'') 2 (Some ''b'') 1 (Some [7, 7]) None = Some (Inl NullPointer) \<and>
   (\<exists>r. kmp_match (Some ''ab'') 2 (Some ''b'') 1 (Some [7, 7]) (Some [0]) = Some (Inr r)) \<and>
   kmp_match (Some ''ab'') 2 (Some ''b'') 1 (Some [7, 7]) (Some [0]) = Some (Inr (1, Some [1, 7]))"
proof -
  have "kmp_match (Some ''ab'') 2 (Some ''b'') 1 (Some [7, 7]) (Some [0]) =
        Some (Inr (1, Some [1, 7]))"
    by code_simp
  then show ?thesis
    using kmp_match_allocation [of "''ab''" 2 "''b''" 1 "[7, 7]"] by simp
qed

subsection \<open>Termination\<close>

text \<open>
  Claim C6. When every entry of the failure table is smaller than its index, the fallback
  loop returns from any start index \<open>i\<close>, with an index that is not larger than \<open>i\<close>
  (each step replaces \<open>i\<close> by the smaller \<open>failure[i]\<close>, and the loop stops below \<open>0\<close>).
  \<^verbatim>\<open>kmp_failure\<close> fills its table with such entries, so it returns on every input;
  \<^verbatim>\<open>kmp_match\<close> returns on every input for which \<^verbatim>\<open>malloc\<close> gave null or a block of
  \<open>m\<close> entries; \<^verbatim>\<open>kmp_stream\<close> returns on every state with such a table. Returning
  includes stopping with a fault on an ill-formed input.
\<close>

theorem fallback_loops_terminate:
  "((\<forall>f. failure = Some f \<longrightarrow> (\<forall>x<length f. f ! x < int x)) \<longrightarrow>
      (\<exists>y. fallback P failure c i = Some y \<and> (\<forall>i1. y = Inr i1 \<longrightarrow> i1 \<le> i))) \<and>
   (\<exists>y. kmp_failure P m table = Some y) \<and>
   ((\<forall>b. block = Some b \<longrightarrow> length b = nat m) \<longrightarrow>
      (\<exists>y. kmp_match T n P m out block = Some y)) \<and>
   ((\<forall>s f. state = Some s \<and> state_failure s = Some f \<longrightarrow> (\<forall>x<length f. f ! x < int x)) \<longrightarrow>
      (\<exists>y. kmp_stream state T_j j = Some y))"
proof (intro conjI impI)
  assume "\<forall>f. failure = Some f \<longrightarrow> (\<forall>x<length f. f ! x < int x)"
  then have "\<forall>f. failure = Some f \<longrightarrow> (\<forall>x<length f. int x \<le> i \<longrightarrow> f ! x < int x)"
    by simp
  then show "\<exists>y. fallback P failure c i = Some y \<and> (\<forall>i1. y = Inr i1 \<longrightarrow> i1 \<le> i)"
    by (rule fallback_terminates)
next
  show "\<exists>y. kmp_failure P m table = Some y"
    using kmp_failure_terminates [of P m table] by blast
next
  assume "\<forall>b. block = Some b \<longrightarrow> length b = nat m"
  then show "\<exists>y. kmp_match T n P m out block = Some y"
    by (rule kmp_match_terminates)
next
  assume "\<forall>s f. state = Some s \<and> state_failure s = Some f \<longrightarrow> (\<forall>x<length f. f ! x < int x)"
  then show "\<exists>y. kmp_stream state T_j j = Some y"
    by (rule kmp_stream_terminates)
qed

text \<open>
  A fallback from index \<open>1\<close> in the pattern \<open>aab\<close> on the symbol \<open>c\<close>, and one run of
  each function.
\<close>

theorem fallback_loops_terminate_witness:
  "fallback (Some ''aab'') (Some [- 1, 0, - 1]) (Inr CHR ''c'') 1 = Some (Inr (- 1)) \<and>
   (\<exists>y. fallback (Some ''aab'') (Some [- 1, 0, - 1]) (Inr CHR ''c'') 1 = Some y) \<and>
   (\<exists>y. kmp_failure (Some ''aab'') 3 (Some [0, 0, 0]) = Some y) \<and>
   (\<exists>y. kmp_match (Some ''aaab'') 4 (Some ''aab'') 3 (Some [7, 7]) (Some [0, 0, 0]) = Some y) \<and>
   (\<exists>y. kmp_stream
          (Some \<lparr>state_P = Some ''aab'', state_m = 3, state_i = 1,
                 state_failure = Some [- 1, 0, - 1]\<rparr>) CHR ''c'' 5 = Some y)"
proof -
  have tbl: "\<forall>x<length [- 1, 0, - 1 :: int]. [- 1, 0, - 1 :: int] ! x < int x"
    by (auto simp: less_Suc_eq)
  have ev: "fallback (Some ''aab'') (Some [- 1, 0, - 1]) (Inr CHR ''c'') 1 = Some (Inr (- 1))"
    by code_simp
  show ?thesis
    using fallback_loops_terminate
      [of "Some [- 1, 0, - 1]" "Some ''aab''" "Inr CHR ''c''" 1 3 "Some [0, 0, 0]"
          "Some [0, 0, 0]" "Some ''aaab''" 4 "Some [7, 7]"
          "Some \<lparr>state_P = Some ''aab'', state_m = 3, state_i = 1,
                 state_failure = Some [- 1, 0, - 1]\<rparr>" "CHR ''c''" 5]
      tbl ev
    by simp
qed

subsection \<open>The progress index of the streaming matcher\<close>

text \<open>
  Claim C7. For a pattern \<open>p\<close> of length \<open>m \<ge> 1\<close> (the three allocations of
  \<^verbatim>\<open>kmp_build\<close> having succeeded, with \<open>m\<close> entries for the pattern copy and for the
  table), \<^verbatim>\<open>kmp_build\<close> returns a state whose progress index is \<open>-1\<close>. Feeding it any
  text \<open>t\<close>, from any position, returns a state whose index \<open>i\<close> lies in \<open>[-1, m - 1]\<close>,
  and \<open>i + 1\<close> is the length of the longest proper prefix of the pattern that ends at
  the symbol fed last: the index \<open>m - 1\<close> of a completed match has been replaced by its
  failure link before \<^verbatim>\<open>kmp_stream\<close> returns.
\<close>

theorem kmp_state_progress:
  assumes "length p = nat m" and "1 \<le> m" and "length pblock = nat m"
    and "length fblock = nat m"
  shows "\<exists>st. kmp_build (Some p) m (Some s0) (Some pblock) (Some fblock) =
               Some (Inr (Some st)) \<and>
             state_i st = - 1 \<and>
             (\<forall>t j. \<exists>rs st'. feed (Some st) t j = Some (Inr (rs, Some st')) \<and>
                 - 1 \<le> state_i st' \<and> state_i st' \<le> m - 1 \<and>
                 lsp p t (nat (state_i st' + 1)))"
proof -
  have m: "int (length p) = m" and lq: "length pblock = length p"
    and lf: "length fblock = length p" and pos: "0 < length p"
    using assms by simp_all
  from feed_build [OF lq lf pos, of s0] obtain st where
    run: "kmp_build (Some p) m (Some s0) (Some pblock) (Some fblock) = Some (Inr (Some st))"
    and i0: "state_i st = - 1"
    and fed: "\<forall>t j. \<exists>k st'. feed (Some st) t j =
                 Some (Inr (map (\<lambda>e. if is_sp p (take (Suc e) t) (length p)
                                      then j + int e else - 1) [0..<length t],
                            Some st')) \<and>
                 state_i st' = int k - 1 \<and> lsp p t k"
    unfolding m by blast
  have "\<exists>rs st'. feed (Some st) t j = Some (Inr (rs, Some st')) \<and>
                 - 1 \<le> state_i st' \<and> state_i st' \<le> m - 1 \<and>
                 lsp p t (nat (state_i st' + 1))" for t j
  proof -
    from fed obtain k st' rs where
      a: "feed (Some st) t j = Some (Inr (rs, Some st'))"
      and b: "state_i st' = int k - 1" and c: "lsp p t k"
      by blast
    have "k < length p" using c by (simp add: lsp_def)
    then have "- 1 \<le> state_i st'" and "state_i st' \<le> m - 1"
      and "nat (state_i st' + 1) = k"
      using b m by simp_all
    with a c show ?thesis by auto
  qed
  with run i0 show ?thesis by blast
qed

text \<open>
  The pattern \<open>aba\<close> fed the text \<open>abab\<close>: a match is reported at position \<open>2\<close>, and
  the final index is \<open>1\<close>, for the prefix \<open>ab\<close> that ends the text.
\<close>

theorem kmp_state_progress_witness:
  "\<exists>st. kmp_build (Some ''aba'') 3 (Some \<lparr>state_P = None, state_m = 0, state_i = 0,
            state_failure = None\<rparr>) (Some ''zzz'') (Some [0, 0, 0]) = Some (Inr (Some st)) \<and>
        state_i st = - 1 \<and>
        (\<exists>rs st'. feed (Some st) ''abab'' 0 = Some (Inr (rs, Some st')) \<and>
           rs = [- 1, - 1, 2, - 1] \<and> state_i st' = 1 \<and> lsp ''aba'' ''abab'' 2)"
proof -
  let ?s0 = "\<lparr>state_P = None, state_m = 0, state_i = 0, state_failure = None\<rparr>"
  have b: "kmp_build (Some ''aba'') 3 (Some ?s0) (Some ''zzz'') (Some [0, 0, 0]) =
        Some (Inr (Some \<lparr>state_P = Some ''aba'', state_m = 3, state_i = - 1,
                          state_failure = Some [- 1, - 1, 0]\<rparr>))"
    by code_simp
  have f: "feed (Some \<lparr>state_P = Some ''aba'', state_m = 3, state_i = - 1,
                          state_failure = Some [- 1, - 1, 0]\<rparr>) ''abab'' 0 =
        Some (Inr ([- 1, - 1, 2, - 1],
          Some \<lparr>state_P = Some ''aba'', state_m = 3, state_i = 1,
                 state_failure = Some [- 1, - 1, 0]\<rparr>))"
    by code_simp
  from kmp_state_progress [of "''aba''" 3 "''zzz''" "[0, 0, 0]" ?s0] obtain st where
    run: "kmp_build (Some ''aba'') 3 (Some ?s0) (Some ''zzz'') (Some [0, 0, 0]) =
            Some (Inr (Some st))"
    and i0: "state_i st = - 1"
    and fed: "\<forall>t j. \<exists>rs st'. feed (Some st) t j = Some (Inr (rs, Some st')) \<and>
                 - 1 \<le> state_i st' \<and> state_i st' \<le> 3 - 1 \<and>
                 lsp ''aba'' t (nat (state_i st' + 1))"
    by auto
  from fed obtain rs st' where
    a: "feed (Some st) ''abab'' 0 = Some (Inr (rs, Some st'))"
    and c: "lsp ''aba'' ''abab'' (nat (state_i st' + 1))"
    by blast
  from run b have st: "st = \<lparr>state_P = Some ''aba'', state_m = 3, state_i = - 1,
                          state_failure = Some [- 1, - 1, 0]\<rparr>"
    by simp
  from a f have "rs = [- 1, - 1, 2, - 1]" and "state_i st' = 1"
    unfolding st by auto
  with run i0 a c show ?thesis by auto
qed

subsection \<open>Streaming and batch matching agree\<close>

text \<open>
  Claim C2. Take a text \<open>t\<close> of length \<open>n\<close> and a pattern \<open>p\<close> of length \<open>m \<ge> 1\<close>, all
  allocations having succeeded. Build the streaming state and feed it \<open>t\<close> one symbol at
  a time, at the positions \<open>0, \<dots>, n - 1\<close>; run \<^verbatim>\<open>kmp_match\<close> on the same text. Both
  return. The value \<^verbatim>\<open>kmp_stream\<close> returned at position \<open>j\<close> is \<open>j\<close> exactly when the
  batch scan recorded the offset \<open>j - m + 1\<close>, and \<open>-1\<close> otherwise; and the notifications,
  in the order they were emitted, are the recorded offsets shifted by \<open>m - 1\<close>.
\<close>

theorem stream_equals_batch:
  assumes "length t = nat n" and "0 \<le> n" and "length p = nat m" and "1 \<le> m"
    and "length pblock = nat m" and "length fblock = nat m" and "length block = nat m"
    and "nat (n - m + 1) \<le> length out"
  shows "\<exists>st rs st' os.
           kmp_build (Some p) m (Some s0) (Some pblock) (Some fblock) = Some (Inr st) \<and>
           feed st t 0 = Some (Inr (rs, st')) \<and>
           kmp_match (Some t) n (Some p) m (Some out) (Some block) =
             Some (Inr (int (length os), Some (map int os @ drop (length os) out))) \<and>
           length rs = length t \<and>
           (\<forall>j<length t. rs ! j =
              (if m \<le> int j + 1 \<and> nat (int j - m + 1) \<in> set os then int j else - 1)) \<and>
           filter (\<lambda>r. r \<noteq> - 1) rs = map (\<lambda>s. int s + m - 1) os"
proof -
  have n: "int (length t) = n" and m: "int (length p) = m"
    and lq: "length pblock = length p" and lf: "length fblock = length p"
    and lb: "length block = length p" and pos: "0 < length p"
    using assms by simp_all
  have "Suc (length t) - length p = nat (n - m + 1)"
    using assms by linarith
  then have room: "Suc (length t) - length p \<le> length out"
    using assms(8) by simp
  let ?os = "occurrences t p"
  let ?rs = "map (\<lambda>e. if is_sp p (take (Suc e) t) (length p) then 0 + int e else - 1)
               [0..<length t]"
  have batch: "kmp_match (Some t) n (Some p) m (Some out) (Some block) =
         Some (Inr (int (length ?os), Some (map int ?os @ drop (length ?os) out)))"
    using kmp_match_correct [OF lb pos room] unfolding n m .
  from feed_build [OF lq lf pos, of s0] obtain st st' where
    run: "kmp_build (Some p) m (Some s0) (Some pblock) (Some fblock) = Some (Inr (Some st))"
    and fed: "feed (Some st) t 0 = Some (Inr (?rs, Some st'))"
    unfolding m by blast
  have each: "?rs ! j = (if m \<le> int j + 1 \<and> nat (int j - m + 1) \<in> set ?os then int j else - 1)"
    if j: "j < length t" for j
  proof -
    have "nat (int j - m + 1) = Suc j - length p" if "m \<le> int j + 1"
      using that m by linarith
    moreover have "m \<le> int j + 1 \<longleftrightarrow> length p \<le> Suc j"
      using m by linarith
    ultimately have "is_sp p (take (Suc j) t) (length p) \<longleftrightarrow>
          m \<le> int j + 1 \<and> nat (int j - m + 1) \<in> set ?os"
      using is_sp_full [OF j, of p] by (auto simp: occurrences_set)
    then show ?thesis using j by simp
  qed
  have "filter (\<lambda>r. r \<noteq> - 1) ?rs = map (\<lambda>s. int s + int (length p) - 1) ?os"
    using notifications_ends [of p t] ends_positions [OF pos, of t] by simp
  then have same: "filter (\<lambda>r. r \<noteq> - 1) ?rs = map (\<lambda>s. int s + m - 1) ?os"
    unfolding m .
  have "length ?rs = length t" by simp
  with run fed batch each same show ?thesis by blast
qed

text \<open>
  The pattern \<open>abab\<close> in \<open>abababab\<close>: notifications at \<open>3, 5, 7\<close>, offsets
  \<open>0, 2, 4\<close>.
\<close>

theorem stream_equals_batch_witness:
  "\<exists>st rs st'.
     kmp_build (Some ''abab'') 4 (Some \<lparr>state_P = None, state_m = 0, state_i = 0,
       state_failure = None\<rparr>) (Some ''zzzz'') (Some [0, 0, 0, 0]) = Some (Inr st) \<and>
     feed st ''abababab'' 0 = Some (Inr (rs, st')) \<and>
     rs = [- 1, - 1, - 1, 3, - 1, 5, - 1, 7] \<and>
     kmp_match (Some ''abababab'') 8 (Some ''abab'') 4 (Some [9, 9, 9, 9, 9])
       (Some [0, 0, 0, 0]) = Some (Inr (3, Some [0, 2, 4, 9, 9])) \<and>
     filter (\<lambda>r. r \<noteq> - 1) rs = map (\<lambda>s. int s + 4 - 1) [0, 2, 4]"
proof -
  let ?s0 = "\<lparr>state_P = None, state_m = 0, state_i = 0, state_failure = None\<rparr>"
  let ?s1 = "\<lparr>state_P = Some ''abab'', state_m = 4, state_i = - 1,
              state_failure = Some [- 1, - 1, 0, 1]\<rparr>"
  have b: "kmp_build (Some ''abab'') 4 (Some ?s0) (Some ''zzzz'') (Some [0, 0, 0, 0]) =
        Some (Inr (Some ?s1))"
    by code_simp
  have f: "feed (Some ?s1) ''abababab'' 0 =
        Some (Inr ([- 1, - 1, - 1, 3, - 1, 5, - 1, 7],
          Some \<lparr>state_P = Some ''abab'', state_m = 4, state_i = 1,
                 state_failure = Some [- 1, - 1, 0, 1]\<rparr>))"
    by code_simp
  have k: "kmp_match (Some ''abababab'') 8 (Some ''abab'') 4 (Some [9, 9, 9, 9, 9])
       (Some [0, 0, 0, 0]) = Some (Inr (3, Some [0, 2, 4, 9, 9]))"
    by code_simp
  from stream_equals_batch [of "''abababab''" 8 "''abab''" 4 "''zzzz''" "[0, 0, 0, 0]"
      "[0, 0, 0, 0]" "[9, 9, 9, 9, 9]" ?s0]
  obtain st rs st' os where
    run: "kmp_build (Some ''abab'') 4 (Some ?s0) (Some ''zzzz'') (Some [0, 0, 0, 0]) =
            Some (Inr st)"
    and fed: "feed st ''abababab'' 0 = Some (Inr (rs, st'))"
    and bat: "kmp_match (Some ''abababab'') 8 (Some ''abab'') 4 (Some [9, 9, 9, 9, 9])
                (Some [0, 0, 0, 0]) =
              Some (Inr (int (length os), Some (map int os @ drop (length os) [9, 9, 9, 9, 9])))"
    and same: "filter (\<lambda>r. r \<noteq> - 1) rs = map (\<lambda>s. int s + 4 - 1) os"
    by auto
  from run b have st: "st = Some ?s1" by simp
  from fed f have rs: "rs = [- 1, - 1, - 1, 3, - 1, 5, - 1, 7]"
    unfolding st by simp
  have "filter (\<lambda>r. r \<noteq> - 1) [- 1, - 1, - 1, 3, - 1, 5, - 1, 7 :: int] =
        map (\<lambda>s. int s + 4 - 1) [0, 2, 4]"
    by simp
  with run fed rs k show ?thesis by blast
qed

subsection \<open>What the streaming functions write\<close>

text \<open>
  Claim C10. Let the caller's buffer hold at least \<open>m \<ge> 1\<close> symbols, and let the block
  \<^verbatim>\<open>malloc\<close> returned for the pattern copy hold at least \<open>m\<close> entries (the other two
  allocations having succeeded). \<^verbatim>\<open>kmp_build\<close> returns a state whose field \<open>P\<close> points to
  that block, not to the caller's buffer: the block now holds the first \<open>m\<close> symbols of
  the pattern, followed by whatever it held beyond them, so \<^verbatim>\<open>state->P[k] == P[k]\<close> for
  \<open>0 \<le> k < m\<close> and nothing of the caller's buffer beyond \<open>m\<close> is in it. The storage
  belongs to the state, and \<^verbatim>\<open>kmp_stream\<close> reads the pattern from there. Every call of
  \<^verbatim>\<open>kmp_stream\<close> that returns leaves a state that differs from the one it was given in
  the field \<open>i\<close> at most: \<open>P\<close>, \<open>m\<close> and \<open>failure\<close> are unchanged.
\<close>

theorem kmp_build_copies_stream_frame:
  "(nat m \<le> length p \<and> 1 \<le> m \<and> nat m \<le> length pblock \<and> length fblock = nat m \<longrightarrow>
      (\<exists>s. kmp_build (Some p) m (Some s0) (Some pblock) (Some fblock) = Some (Inr (Some s)) \<and>
         state_P s = Some (take (nat m) p @ drop (nat m) pblock) \<and> state_m s = m \<and>
         (\<forall>k. 0 \<le> k \<and> k < m \<longrightarrow> rd (state_P s) k = Inr (p ! nat k)))) \<and>
   (kmp_stream state c j = Some (Inr (r, state')) \<longrightarrow>
      (\<exists>s s'. state = Some s \<and> state' = Some s' \<and> s' = s\<lparr>state_i := state_i s'\<rparr> \<and>
         state_P s' = state_P s \<and> state_m s' = state_m s \<and>
         state_failure s' = state_failure s))"
proof (intro conjI impI)
  assume a: "nat m \<le> length p \<and> 1 \<le> m \<and> nat m \<le> length pblock \<and> length fblock = nat m"
  then have lp: "nat m \<le> length p" and lq: "nat m \<le> length pblock"
    and lf: "length fblock = nat m" and pos: "0 < nat m" and m: "int (nat m) = m"
    by simp_all
  from kmp_build_slack [OF lp lq lf pos, of s0] obtain f' where
    run: "kmp_build (Some p) m (Some s0) (Some pblock) (Some fblock) =
            Some (Inr (Some (s0\<lparr>state_P := Some (take (nat m) p @ drop (nat m) pblock),
                                  state_m := m, state_i := - 1, state_failure := Some f'\<rparr>)))"
    unfolding m by blast
  let ?s = "s0\<lparr>state_P := Some (take (nat m) p @ drop (nat m) pblock),
                state_m := m, state_i := - 1, state_failure := Some f'\<rparr>"
  have P: "state_P ?s = Some (take (nat m) p @ drop (nat m) pblock)" and sm: "state_m ?s = m"
    by simp_all
  have "rd (state_P ?s) k = Inr (p ! nat k)" if "0 \<le> k \<and> k < m" for k
  proof -
    have "nat k < nat m" using that by simp
    then show ?thesis using that lp by (simp add: rd_def nth_append)
  qed
  with run P sm
  show "\<exists>s. kmp_build (Some p) m (Some s0) (Some pblock) (Some fblock) = Some (Inr (Some s)) \<and>
         state_P s = Some (take (nat m) p @ drop (nat m) pblock) \<and> state_m s = m \<and>
         (\<forall>k. 0 \<le> k \<and> k < m \<longrightarrow> rd (state_P s) k = Inr (p ! nat k))"
    by blast
next
  assume "kmp_stream state c j = Some (Inr (r, state'))"
  from kmp_stream_frame [OF this] obtain s i' where
    s: "state = Some s" and s': "state' = Some (s\<lparr>state_i := i'\<rparr>)"
    by blast
  let ?s' = "s\<lparr>state_i := i'\<rparr>"
  have "?s' = s\<lparr>state_i := state_i ?s'\<rparr>" and "state_P ?s' = state_P s"
    and "state_m ?s' = state_m s" and "state_failure ?s' = state_failure s"
    by simp_all
  with s s' show "\<exists>s s'. state = Some s \<and> state' = Some s' \<and> s' = s\<lparr>state_i := state_i s'\<rparr> \<and>
         state_P s' = state_P s \<and> state_m s' = state_m s \<and>
         state_failure s' = state_failure s"
    by blast
qed

text \<open>
  The pattern \<open>ab\<close> taken from the caller's buffer \<open>abXY\<close>, copied into a block that
  held \<open>zzz\<close>: the state holds \<open>abz\<close>. Then \<open>b\<close> fed to a state with index \<open>0\<close>.
\<close>

theorem kmp_build_copies_stream_frame_witness:
  "kmp_build (Some ''abXY'') 2 (Some \<lparr>state_P = None, state_m = 0, state_i = 0,
          state_failure = None\<rparr>) (Some ''zzz'') (Some [0, 0]) =
     Some (Inr (Some \<lparr>state_P = Some ''abz'', state_m = 2, state_i = - 1,
          state_failure = Some [- 1, - 1]\<rparr>)) \<and>
   (\<exists>s. kmp_build (Some ''abXY'') 2 (Some \<lparr>state_P = None, state_m = 0, state_i = 0,
          state_failure = None\<rparr>) (Some ''zzz'') (Some [0, 0]) = Some (Inr (Some s)) \<and>
        state_P s = Some ''abz'' \<and> state_m s = 2 \<and> rd (state_P s) 1 = Inr CHR ''b'') \<and>
   kmp_stream (Some \<lparr>state_P = Some ''ab'', state_m = 2, state_i = 0,
          state_failure = Some [- 1, - 1]\<rparr>) CHR ''b'' 1 =
     Some (Inr (1, Some \<lparr>state_P = Some ''ab'', state_m = 2, state_i = - 1,
          state_failure = Some [- 1, - 1]\<rparr>)) \<and>
   (\<exists>s s'. Some \<lparr>state_P = Some ''ab'', state_m = 2, state_i = 0,
          state_failure = Some [- 1, - 1]\<rparr> = Some s \<and>
        Some \<lparr>state_P = Some ''ab'', state_m = 2, state_i = - 1,
          state_failure = Some [- 1, - 1]\<rparr> = Some s' \<and>
        state_P s' = state_P s \<and> state_m s' = state_m s \<and>
        state_failure s' = state_failure s)"
proof -
  let ?s0 = "\<lparr>state_P = None, state_m = 0, state_i = 0, state_failure = None\<rparr>"
  let ?s1 = "\<lparr>state_P = Some ''ab'', state_m = 2, state_i = 0,
              state_failure = Some [- 1, - 1]\<rparr>"
  let ?s2 = "\<lparr>state_P = Some ''ab'', state_m = 2, state_i = - 1,
              state_failure = Some [- 1, - 1]\<rparr>"
  have bd: "kmp_build (Some ''abXY'') 2 (Some ?s0) (Some ''zzz'') (Some [0, 0]) =
     Some (Inr (Some \<lparr>state_P = Some ''abz'', state_m = 2, state_i = - 1,
          state_failure = Some [- 1, - 1]\<rparr>))"
    by code_simp
  have ev: "kmp_stream (Some ?s1) CHR ''b'' 1 = Some (Inr (1, Some ?s2))"
    by code_simp
  note both = kmp_build_copies_stream_frame
      [of 2 "''abXY''" "''zzz''" "[0, 0]" ?s0 "Some ?s1" "CHR ''b''" 1 1 "Some ?s2"]
  from both obtain s where
    b: "kmp_build (Some ''abXY'') 2 (Some ?s0) (Some ''zzz'') (Some [0, 0]) =
          Some (Inr (Some s))"
      "state_P s = Some ''abz''" "state_m s = 2"
    and rdk: "\<forall>k. 0 \<le> k \<and> k < 2 \<longrightarrow> rd (state_P s) k = Inr (''abXY'' ! nat k)"
    by auto
  have "(0::int) \<le> 1 \<and> (1::int) < 2" by simp
  from rdk [rule_format, OF this] have one: "rd (state_P s) 1 = Inr CHR ''b''"
    by simp
  from both ev have fr: "\<exists>s s'. Some ?s1 = Some s \<and> Some ?s2 = Some s' \<and>
        state_P s' = state_P s \<and> state_m s' = state_m s \<and>
        state_failure s' = state_failure s"
    by blast
  from b one have "\<exists>s. kmp_build (Some ''abXY'') 2 (Some ?s0) (Some ''zzz'') (Some [0, 0]) =
          Some (Inr (Some s)) \<and>
        state_P s = Some ''abz'' \<and> state_m s = 2 \<and> rd (state_P s) 1 = Inr CHR ''b''"
    by blast
  with bd ev fr show ?thesis by blast
qed

end
